theory Spec2Isabelle
  imports Main "HOL-Library.AList" "HOL-Library.Char_ord" "HOL-Library.List_Lexorder"
    "HOL-Library.Monad_Syntax"
begin

section \<open>Library functions the package calls\<close>

text \<open>
  Go strings are byte sequences: a \<^typ>\<open>string\<close> is the list of its bytes, and the order of
  \<^theory_text>\<open>sort.Strings\<close> is the lexicographic order of the bytes, which is the order on
  \<^typ>\<open>string\<close> given by the two library theories imported above.
\<close>

subsection \<open>Package strings\<close>

definition HasPrefix :: "string \<Rightarrow> string \<Rightarrow> bool" where
  "HasPrefix s p = (take (length p) s = p)"

fun Join :: "string list \<Rightarrow> string \<Rightarrow> string" where
  "Join [] sep = []"
| "Join [x] sep = x"
| "Join (x # y # r) sep = x @ sep @ Join (y # r) sep"

text \<open>
  \<^theory_text>\<open>strings.ToLower\<close> has a fast path for a string of ASCII bytes only; any other
  string is decoded rune by rune (\<^theory_text>\<open>utf8.DecodeRuneInString\<close>), every rune is mapped
  with \<^theory_text>\<open>unicode.ToLower\<close> and encoded again; a byte that starts no valid encoding
  becomes U+FFFD.
\<close>

text \<open>The byte with the value \<open>n mod 256\<close>.\<close>

definition byte_of_nat :: "nat \<Rightarrow> char" where
  "byte_of_nat n =
     Char (odd n) (odd (n div 2)) (odd (n div 4)) (odd (n div 8))
          (odd (n div 16)) (odd (n div 32)) (odd (n div 64)) (odd (n div 128))"

definition asciiLower :: "char \<Rightarrow> char" where
  "asciiLower c =
     (if CHR ''A'' \<le> c \<and> c \<le> CHR ''Z'' then byte_of_nat (of_char c + 32) else c)"

definition RuneError :: nat where
  "RuneError = 65533"

definition inRange :: "nat \<Rightarrow> nat \<Rightarrow> nat \<Rightarrow> bool" where
  "inRange lo hi b = (lo \<le> b \<and> b \<le> hi)"

text \<open>The rune at the head of a byte sequence and the number of bytes it takes.\<close>

fun DecodeRune :: "nat list \<Rightarrow> nat \<times> nat" where
  "DecodeRune [] = (RuneError, 0)"
| "DecodeRune (b0 # r) =
     (if b0 < 128 then (b0, 1)
      else if inRange 194 223 b0 then
        (case r of
           b1 # _ \<Rightarrow> if inRange 128 191 b1 then ((b0 mod 32) * 64 + b1 mod 64, 2) else (RuneError, 1)
         | _ \<Rightarrow> (RuneError, 1))
      else if inRange 224 239 b0 then
        (case r of
           b1 # b2 # _ \<Rightarrow>
             if inRange (if b0 = 224 then 160 else 128) (if b0 = 237 then 159 else 191) b1
                \<and> inRange 128 191 b2
             then (((b0 mod 16) * 64 + b1 mod 64) * 64 + b2 mod 64, 3) else (RuneError, 1)
         | _ \<Rightarrow> (RuneError, 1))
      else if inRange 240 244 b0 then
        (case r of
           b1 # b2 # b3 # _ \<Rightarrow>
             if inRange (if b0 = 240 then 144 else 128) (if b0 = 244 then 143 else 191) b1
                \<and> inRange 128 191 b2 \<and> inRange 128 191 b3
             then ((((b0 mod 8) * 64 + b1 mod 64) * 64 + b2 mod 64) * 64 + b3 mod 64, 4)
             else (RuneError, 1)
         | _ \<Rightarrow> (RuneError, 1))
      else (RuneError, 1))"

definition EncodeRune :: "nat \<Rightarrow> nat list" where
  "EncodeRune r =
     (if r < 128 then [r]
      else if r < 2048 then [192 + r div 64, 128 + r mod 64]
      else if inRange 55296 57343 r \<or> 1114111 < r then [239, 191, 189]
      else if r < 65536 then [224 + r div 4096, 128 + (r div 64) mod 64, 128 + r mod 64]
      else [240 + r div 262144, 128 + (r div 4096) mod 64, 128 + (r div 64) mod 64, 128 + r mod 64])"

text \<open>
  \<^theory_text>\<open>unicode.ToLower\<close> looks a rune up in the case tables of the package, which hold
  the simple lower-case mappings of the Unicode Character Database. The table below lists
  them all (1433 code points, version 14.0 of the database): an
  entry \<open>(lo, hi, step, lo')\<close> maps every \<open>step\<close>-th code point from \<open>lo\<close> to \<open>hi\<close>,
  the code point \<open>lo + i\<close> to \<open>lo' + i\<close>. Every other rune is left as it is.
\<close>

definition lowerRanges :: "(nat \<times> nat \<times> nat \<times> nat) list" where
  "lowerRanges =
    [(65, 90, 1, 97), (192, 214, 1, 224), (216, 222, 1, 248), (256, 302, 2, 257),
     (304, 304, 1, 105), (306, 310, 2, 307), (313, 327, 2, 314), (330, 374, 2, 331),
     (376, 376, 1, 255), (377, 381, 2, 378), (385, 385, 1, 595), (386, 388, 2, 387),
     (390, 390, 1, 596), (391, 391, 1, 392), (393, 394, 1, 598), (395, 395, 1, 396),
     (398, 398, 1, 477), (399, 399, 1, 601), (400, 400, 1, 603), (401, 401, 1, 402),
     (403, 403, 1, 608), (404, 404, 1, 611), (406, 406, 1, 617), (407, 407, 1, 616),
     (408, 408, 1, 409), (412, 412, 1, 623), (413, 413, 1, 626), (415, 415, 1, 629),
     (416, 420, 2, 417), (422, 422, 1, 640), (423, 423, 1, 424), (425, 425, 1, 643),
     (428, 428, 1, 429), (430, 430, 1, 648), (431, 431, 1, 432), (433, 434, 1, 650),
     (435, 437, 2, 436), (439, 439, 1, 658), (440, 440, 1, 441), (444, 444, 1, 445),
     (452, 452, 1, 454), (453, 453, 1, 454), (455, 455, 1, 457), (456, 456, 1, 457),
     (458, 458, 1, 460), (459, 475, 2, 460), (478, 494, 2, 479), (497, 497, 1, 499),
     (498, 500, 2, 499), (502, 502, 1, 405), (503, 503, 1, 447), (504, 542, 2, 505),
     (544, 544, 1, 414), (546, 562, 2, 547), (570, 570, 1, 11365), (571, 571, 1, 572),
     (573, 573, 1, 410), (574, 574, 1, 11366), (577, 577, 1, 578), (579, 579, 1, 384),
     (580, 580, 1, 649), (581, 581, 1, 652), (582, 590, 2, 583), (880, 882, 2, 881),
     (886, 886, 1, 887), (895, 895, 1, 1011), (902, 902, 1, 940), (904, 906, 1, 941),
     (908, 908, 1, 972), (910, 911, 1, 973), (913, 929, 1, 945), (931, 939, 1, 963),
     (975, 975, 1, 983), (984, 1006, 2, 985), (1012, 1012, 1, 952), (1015, 1015, 1, 1016),
     (1017, 1017, 1, 1010), (1018, 1018, 1, 1019), (1021, 1023, 1, 891), (1024, 1039, 1, 1104),
     (1040, 1071, 1, 1072), (1120, 1152, 2, 1121), (1162, 1214, 2, 1163), (1216, 1216, 1, 1231),
     (1217, 1229, 2, 1218), (1232, 1326, 2, 1233), (1329, 1366, 1, 1377), (4256, 4293, 1, 11520),
     (4295, 4295, 1, 11559), (4301, 4301, 1, 11565), (5024, 5103, 1, 43888), (5104, 5109, 1, 5112),
     (7312, 7354, 1, 4304), (7357, 7359, 1, 4349), (7680, 7828, 2, 7681), (7838, 7838, 1, 223),
     (7840, 7934, 2, 7841), (7944, 7951, 1, 7936), (7960, 7965, 1, 7952), (7976, 7983, 1, 7968),
     (7992, 7999, 1, 7984), (8008, 8013, 1, 8000), (8025, 8031, 2, 8017), (8040, 8047, 1, 8032),
     (8072, 8079, 1, 8064), (8088, 8095, 1, 8080), (8104, 8111, 1, 8096), (8120, 8121, 1, 8112),
     (8122, 8123, 1, 8048), (8124, 8124, 1, 8115), (8136, 8139, 1, 8050), (8140, 8140, 1, 8131),
     (8152, 8153, 1, 8144), (8154, 8155, 1, 8054), (8168, 8169, 1, 8160), (8170, 8171, 1, 8058),
     (8172, 8172, 1, 8165), (8184, 8185, 1, 8056), (8186, 8187, 1, 8060), (8188, 8188, 1, 8179),
     (8486, 8486, 1, 969), (8490, 8490, 1, 107), (8491, 8491, 1, 229), (8498, 8498, 1, 8526),
     (8544, 8559, 1, 8560), (8579, 8579, 1, 8580), (9398, 9423, 1, 9424), (11264, 11311, 1, 11312),
     (11360, 11360, 1, 11361), (11362, 11362, 1, 619), (11363, 11363, 1, 7549), (11364, 11364, 1, 637),
     (11367, 11371, 2, 11368), (11373, 11373, 1, 593), (11374, 11374, 1, 625), (11375, 11375, 1, 592),
     (11376, 11376, 1, 594), (11378, 11378, 1, 11379), (11381, 11381, 1, 11382), (11390, 11391, 1, 575),
     (11392, 11490, 2, 11393), (11499, 11501, 2, 11500), (11506, 11506, 1, 11507), (42560, 42604, 2, 42561),
     (42624, 42650, 2, 42625), (42786, 42798, 2, 42787), (42802, 42862, 2, 42803), (42873, 42875, 2, 42874),
     (42877, 42877, 1, 7545), (42878, 42886, 2, 42879), (42891, 42891, 1, 42892), (42893, 42893, 1, 613),
     (42896, 42898, 2, 42897), (42902, 42920, 2, 42903), (42922, 42922, 1, 614), (42923, 42923, 1, 604),
     (42924, 42924, 1, 609), (42925, 42925, 1, 620), (42926, 42926, 1, 618), (42928, 42928, 1, 670),
     (42929, 42929, 1, 647), (42930, 42930, 1, 669), (42931, 42931, 1, 43859), (42932, 42946, 2, 42933),
     (42948, 42948, 1, 42900), (42949, 42949, 1, 642), (42950, 42950, 1, 7566), (42951, 42953, 2, 42952),
     (42960, 42960, 1, 42961), (42966, 42968, 2, 42967), (42997, 42997, 1, 42998), (65313, 65338, 1, 65345),
     (66560, 66599, 1, 66600), (66736, 66771, 1, 66776), (66928, 66938, 1, 66967), (66940, 66954, 1, 66979),
     (66956, 66962, 1, 66995), (66964, 66965, 1, 67003), (68736, 68786, 1, 68800), (71840, 71871, 1, 71872),
     (93760, 93791, 1, 93792), (125184, 125217, 1, 125218)]"

fun lookup_range :: "(nat \<times> nat \<times> nat \<times> nat) list \<Rightarrow> nat \<Rightarrow> nat" where
  "lookup_range [] r = r"
| "lookup_range ((lo, hi, step, lo') # rs) r =
     (if lo \<le> r \<and> r \<le> hi \<and> (r - lo) mod step = 0 then lo' + (r - lo)
      else lookup_range rs r)"

definition unicodeToLower :: "nat \<Rightarrow> nat" where
  "unicodeToLower r = lookup_range lowerRanges r"

fun MapRunes :: "(nat \<Rightarrow> nat) \<Rightarrow> nat \<Rightarrow> nat list \<Rightarrow> nat list" where
  "MapRunes f 0 bs = []"
| "MapRunes f (Suc n) bs =
     (if bs = [] then []
      else EncodeRune (f (fst (DecodeRune bs))) @ MapRunes f n (drop (snd (DecodeRune bs)) bs))"

definition ToLower :: "string \<Rightarrow> string" where
  "ToLower s =
     (if \<forall>c \<in> set s. (of_char c :: nat) < 128 then map asciiLower s
      else map byte_of_nat (MapRunes unicodeToLower (length s) (map of_char s)))"

subsection \<open>Package crypto/sha256 and the verb \<open>%x\<close>\<close>

text \<open>
  SHA-256 as in FIPS 180-4. A 32-bit word is the list of its 32 bits, least significant bit
  first, so that the sum modulo \<open>2\<^sup>3\<^sup>2\<close> is the ripple-carry sum that drops the last carry,
  and a rotation to the right by \<open>n\<close> moves the first \<open>n\<close> bits to the end. A byte is a
  \<^typ>\<open>char\<close>, which is its eight bits, least significant first.
\<close>

type_synonym word32 = "bool list"

fun xorw :: "word32 \<Rightarrow> word32 \<Rightarrow> word32" where
  "xorw (a # as) (b # bs) = (a \<noteq> b) # xorw as bs"
| "xorw _ _ = []"

fun andw :: "word32 \<Rightarrow> word32 \<Rightarrow> word32" where
  "andw (a # as) (b # bs) = (a \<and> b) # andw as bs"
| "andw _ _ = []"

definition notw :: "word32 \<Rightarrow> word32" where
  "notw x = map Not x"

fun addc :: "bool \<Rightarrow> word32 \<Rightarrow> word32 \<Rightarrow> word32" where
  "addc c (a # as) (b # bs) = (a \<noteq> (b \<noteq> c)) # addc ((a \<and> b) \<or> (c \<and> (a \<noteq> b))) as bs"
| "addc c _ _ = []"

definition addw :: "word32 \<Rightarrow> word32 \<Rightarrow> word32" where
  "addw x y = addc False x y"

definition rotr :: "nat \<Rightarrow> word32 \<Rightarrow> word32" where
  "rotr n x = drop n x @ take n x"

definition shr :: "nat \<Rightarrow> word32 \<Rightarrow> word32" where
  "shr n x = drop n x @ replicate n False"

fun bits_of_char :: "char \<Rightarrow> bool list" where
  "bits_of_char (Char b0 b1 b2 b3 b4 b5 b6 b7) = [b0, b1, b2, b3, b4, b5, b6, b7]"

fun char_of_bits :: "bool list \<Rightarrow> char" where
  "char_of_bits (b0 # b1 # b2 # b3 # b4 # b5 # b6 # b7 # r) = Char b0 b1 b2 b3 b4 b5 b6 b7"
| "char_of_bits _ = CHR 0x00"

text \<open>Words are read from and written to bytes in big-endian order.\<close>

fun words_of_bytes :: "string \<Rightarrow> word32 list" where
  "words_of_bytes (c0 # c1 # c2 # c3 # r) =
     (bits_of_char c3 @ bits_of_char c2 @ bits_of_char c1 @ bits_of_char c0) # words_of_bytes r"
| "words_of_bytes _ = []"

definition bytes_of_word :: "word32 \<Rightarrow> string" where
  "bytes_of_word w =
     [char_of_bits (drop 24 w), char_of_bits (drop 16 w), char_of_bits (drop 8 w), char_of_bits w]"

text \<open>The sixty-four round constants, four bytes each.\<close>

definition K256 :: "word32 list" where
  "K256 = words_of_bytes
    [CHR 0x42, CHR 0x8A, CHR 0x2F, CHR 0x98,
     CHR 0x71, CHR 0x37, CHR 0x44, CHR 0x91,
     CHR 0xB5, CHR 0xC0, CHR 0xFB, CHR 0xCF,
     CHR 0xE9, CHR 0xB5, CHR 0xDB, CHR 0xA5,
     CHR 0x39, CHR 0x56, CHR 0xC2, CHR 0x5B,
     CHR 0x59, CHR 0xF1, CHR 0x11, CHR 0xF1,
     CHR 0x92, CHR 0x3F, CHR 0x82, CHR 0xA4,
     CHR 0xAB, CHR 0x1C, CHR 0x5E, CHR 0xD5,
     CHR 0xD8, CHR 0x07, CHR 0xAA, CHR 0x98,
     CHR 0x12, CHR 0x83, CHR 0x5B, CHR 0x01,
     CHR 0x24, CHR 0x31, CHR 0x85, CHR 0xBE,
     CHR 0x55, CHR 0x0C, CHR 0x7D, CHR 0xC3,
     CHR 0x72, CHR 0xBE, CHR 0x5D, CHR 0x74,
     CHR 0x80, CHR 0xDE, CHR 0xB1, CHR 0xFE,
     CHR 0x9B, CHR 0xDC, CHR 0x06, CHR 0xA7,
     CHR 0xC1, CHR 0x9B, CHR 0xF1, CHR 0x74,
     CHR 0xE4, CHR 0x9B, CHR 0x69, CHR 0xC1,
     CHR 0xEF, CHR 0xBE, CHR 0x47, CHR 0x86,
     CHR 0x0F, CHR 0xC1, CHR 0x9D, CHR 0xC6,
     CHR 0x24, CHR 0x0C, CHR 0xA1, CHR 0xCC,
     CHR 0x2D, CHR 0xE9, CHR 0x2C, CHR 0x6F,
     CHR 0x4A, CHR 0x74, CHR 0x84, CHR 0xAA,
     CHR 0x5C, CHR 0xB0, CHR 0xA9, CHR 0xDC,
     CHR 0x76, CHR 0xF9, CHR 0x88, CHR 0xDA,
     CHR 0x98, CHR 0x3E, CHR 0x51, CHR 0x52,
     CHR 0xA8, CHR 0x31, CHR 0xC6, CHR 0x6D,
     CHR 0xB0, CHR 0x03, CHR 0x27, CHR 0xC8,
     CHR 0xBF, CHR 0x59, CHR 0x7F, CHR 0xC7,
     CHR 0xC6, CHR 0xE0, CHR 0x0B, CHR 0xF3,
     CHR 0xD5, CHR 0xA7, CHR 0x91, CHR 0x47,
     CHR 0x06, CHR 0xCA, CHR 0x63, CHR 0x51,
     CHR 0x14, CHR 0x29, CHR 0x29, CHR 0x67,
     CHR 0x27, CHR 0xB7, CHR 0x0A, CHR 0x85,
     CHR 0x2E, CHR 0x1B, CHR 0x21, CHR 0x38,
     CHR 0x4D, CHR 0x2C, CHR 0x6D, CHR 0xFC,
     CHR 0x53, CHR 0x38, CHR 0x0D, CHR 0x13,
     CHR 0x65, CHR 0x0A, CHR 0x73, CHR 0x54,
     CHR 0x76, CHR 0x6A, CHR 0x0A, CHR 0xBB,
     CHR 0x81, CHR 0xC2, CHR 0xC9, CHR 0x2E,
     CHR 0x92, CHR 0x72, CHR 0x2C, CHR 0x85,
     CHR 0xA2, CHR 0xBF, CHR 0xE8, CHR 0xA1,
     CHR 0xA8, CHR 0x1A, CHR 0x66, CHR 0x4B,
     CHR 0xC2, CHR 0x4B, CHR 0x8B, CHR 0x70,
     CHR 0xC7, CHR 0x6C, CHR 0x51, CHR 0xA3,
     CHR 0xD1, CHR 0x92, CHR 0xE8, CHR 0x19,
     CHR 0xD6, CHR 0x99, CHR 0x06, CHR 0x24,
     CHR 0xF4, CHR 0x0E, CHR 0x35, CHR 0x85,
     CHR 0x10, CHR 0x6A, CHR 0xA0, CHR 0x70,
     CHR 0x19, CHR 0xA4, CHR 0xC1, CHR 0x16,
     CHR 0x1E, CHR 0x37, CHR 0x6C, CHR 0x08,
     CHR 0x27, CHR 0x48, CHR 0x77, CHR 0x4C,
     CHR 0x34, CHR 0xB0, CHR 0xBC, CHR 0xB5,
     CHR 0x39, CHR 0x1C, CHR 0x0C, CHR 0xB3,
     CHR 0x4E, CHR 0xD8, CHR 0xAA, CHR 0x4A,
     CHR 0x5B, CHR 0x9C, CHR 0xCA, CHR 0x4F,
     CHR 0x68, CHR 0x2E, CHR 0x6F, CHR 0xF3,
     CHR 0x74, CHR 0x8F, CHR 0x82, CHR 0xEE,
     CHR 0x78, CHR 0xA5, CHR 0x63, CHR 0x6F,
     CHR 0x84, CHR 0xC8, CHR 0x78, CHR 0x14,
     CHR 0x8C, CHR 0xC7, CHR 0x02, CHR 0x08,
     CHR 0x90, CHR 0xBE, CHR 0xFF, CHR 0xFA,
     CHR 0xA4, CHR 0x50, CHR 0x6C, CHR 0xEB,
     CHR 0xBE, CHR 0xF9, CHR 0xA3, CHR 0xF7,
     CHR 0xC6, CHR 0x71, CHR 0x78, CHR 0xF2]"

type_synonym hash_state =
  "word32 \<times> word32 \<times> word32 \<times> word32 \<times> word32 \<times> word32 \<times> word32 \<times> word32"

definition H256 :: hash_state where
  "H256 =
     (case words_of_bytes
        [CHR 0x6A, CHR 0x09, CHR 0xE6, CHR 0x67,
         CHR 0xBB, CHR 0x67, CHR 0xAE, CHR 0x85,
         CHR 0x3C, CHR 0x6E, CHR 0xF3, CHR 0x72,
         CHR 0xA5, CHR 0x4F, CHR 0xF5, CHR 0x3A,
         CHR 0x51, CHR 0x0E, CHR 0x52, CHR 0x7F,
         CHR 0x9B, CHR 0x05, CHR 0x68, CHR 0x8C,
         CHR 0x1F, CHR 0x83, CHR 0xD9, CHR 0xAB,
         CHR 0x5B, CHR 0xE0, CHR 0xCD, CHR 0x19]
      of [a, b, c, d, e, f, g, h] \<Rightarrow> (a, b, c, d, e, f, g, h) | _ \<Rightarrow> ([], [], [], [], [], [], [], []))"

definition bsig0 :: "word32 \<Rightarrow> word32" where
  "bsig0 x = xorw (xorw (rotr 2 x) (rotr 13 x)) (rotr 22 x)"

definition bsig1 :: "word32 \<Rightarrow> word32" where
  "bsig1 x = xorw (xorw (rotr 6 x) (rotr 11 x)) (rotr 25 x)"

definition ssig0 :: "word32 \<Rightarrow> word32" where
  "ssig0 x = xorw (xorw (rotr 7 x) (rotr 18 x)) (shr 3 x)"

definition ssig1 :: "word32 \<Rightarrow> word32" where
  "ssig1 x = xorw (xorw (rotr 17 x) (rotr 19 x)) (shr 10 x)"

definition ch :: "word32 \<Rightarrow> word32 \<Rightarrow> word32 \<Rightarrow> word32" where
  "ch x y z = xorw (andw x y) (andw (notw x) z)"

definition maj :: "word32 \<Rightarrow> word32 \<Rightarrow> word32 \<Rightarrow> word32" where
  "maj x y z = xorw (xorw (andw x y) (andw x z)) (andw y z)"

text \<open>
  The message schedule is kept as a window of sixteen words: the head is the word of the
  current round, and the word sixteen rounds ahead is appended.
\<close>

definition next_w :: "word32 list \<Rightarrow> word32" where
  "next_w w = addw (addw (addw (ssig1 (w ! 14)) (w ! 9)) (ssig0 (w ! 1))) (w ! 0)"

definition round_out :: "hash_state \<Rightarrow> word32 \<Rightarrow> word32 \<Rightarrow> hash_state" where
  "round_out s t1 t2 =
     (case s of (a, b, c, d, e, f, g, h) \<Rightarrow> (addw t1 t2, a, b, c, addw d t1, e, f, g))"

definition round256 :: "hash_state \<times> word32 list \<Rightarrow> word32 \<Rightarrow> hash_state \<times> word32 list" where
  "round256 sw k =
     (case sw of ((a, b, c, d, e, f, g, h), w) \<Rightarrow>
        (round_out (a, b, c, d, e, f, g, h)
           (addw (addw (addw (addw h (bsig1 e)) (ch e f g)) k) (hd w))
           (addw (bsig0 a) (maj a b c)),
         tl w @ [next_w w]))"

definition add_state :: "hash_state \<Rightarrow> hash_state \<Rightarrow> hash_state" where
  "add_state s t =
     (case s of (a, b, c, d, e, f, g, h) \<Rightarrow>
      case t of (a', b', c', d', e', f', g', h') \<Rightarrow>
        (addw a a', addw b b', addw c c', addw d d', addw e e', addw f f', addw g g', addw h h'))"

definition compress :: "hash_state \<Rightarrow> word32 list \<Rightarrow> hash_state" where
  "compress s blk = add_state s (fst (foldl round256 (s, blk) K256))"

fun blocks :: "word32 list \<Rightarrow> word32 list list" where
  "blocks (w0 # w1 # w2 # w3 # w4 # w5 # w6 # w7 # w8 # w9 # w10 # w11 # w12 # w13 # w14 # w15 # r) =
     [w0, w1, w2, w3, w4, w5, w6, w7, w8, w9, w10, w11, w12, w13, w14, w15] # blocks r"
| "blocks _ = []"

definition len_bytes :: "nat \<Rightarrow> string" where
  "len_bytes n =
     [byte_of_nat (n div 72057594037927936), byte_of_nat (n div 281474976710656),
      byte_of_nat (n div 1099511627776), byte_of_nat (n div 4294967296),
      byte_of_nat (n div 16777216), byte_of_nat (n div 65536), byte_of_nat (n div 256),
      byte_of_nat n]"

definition pad :: "string \<Rightarrow> string" where
  "pad m = m @ [CHR 0x80] @ replicate ((119 - length m mod 64) mod 64) (CHR 0x00)
             @ len_bytes (8 * length m)"

definition sha256 :: "string \<Rightarrow> string" where
  "sha256 m =
     (case foldl compress H256 (blocks (words_of_bytes (pad m))) of
        (a, b, c, d, e, f, g, h) \<Rightarrow> concat (map bytes_of_word [a, b, c, d, e, f, g, h]))"

text \<open>The verb \<open>%x\<close> on a byte slice: two lower-case hexadecimal digits for each byte.\<close>

definition hexdigit :: "nat \<Rightarrow> char" where
  "hexdigit n = ''0123456789abcdef'' ! (n mod 16)"

definition hex_byte :: "char \<Rightarrow> string" where
  "hex_byte c = [hexdigit (of_char c div 16), hexdigit (of_char c mod 16)]"

definition hex :: "string \<Rightarrow> string" where
  "hex bs = concat (map hex_byte bs)"

section \<open>Ranging over a map\<close>

text \<open>
  A \<^theory_text>\<open>range\<close> statement over a Go map meets the keys in an order that the language leaves
  open and that changes from one execution of the statement to the next. A map is modelled
  as an association list, and the order is a parameter of the model: \<open>ord l ks k\<close> is the rank
  of the key \<open>k\<close> when the loop labelled \<open>l\<close> ranges over a map with the keys \<open>ks\<close>, and the
  loop meets the keys by rising rank. The label is the line of the statement in its source
  file; the loop of \<^theory_text>\<open>computeComponentCanonicalHash\<close>, which one call of a public method may
  run several times, takes the line of the call as its label. Every public call comes with
  an order of its own.

  The parameter is used where the order can be seen from outside: for the key that
  \<^theory_text>\<open>computeComponentCanonicalHash\<close> looks up in the hash cache, for the loops that add to the
  LRU cache or overwrite the entries of a result, and for the identifier that the history
  wrapper samples. A loop that only fills a set, deletes keys, or collects values that are
  sorted before they are used takes the keys as the list has them.
\<close>

type_synonym map_order = "nat \<Rightarrow> string list \<Rightarrow> string \<Rightarrow> nat"

definition range_keys :: "map_order \<Rightarrow> nat \<Rightarrow> string list \<Rightarrow> string list" where
  "range_keys ord l ks = sort_key (ord l ks) ks"

definition range_map :: "map_order \<Rightarrow> nat \<Rightarrow> (string \<times> 'v) list \<Rightarrow> (string \<times> 'v) list" where
  "range_map ord l m = sort_key (\<lambda>(k, v). ord l (map fst m) k) m"

text \<open>The order in which every loop meets the keys as the list has them.\<close>

definition list_order :: map_order where
  "list_order l ks k = 0"

section \<open>The LRU cache of the two engines\<close>

text \<open>
  The cache is \<^theory_text>\<open>lru.Cache[string, string]\<close> of the package golang-lru: a bounded map
  that evicts the least recently used entry. The entries are kept most recently used first.
  \<^theory_text>\<open>lru.New\<close> rejects a size that is not positive.
\<close>

record Cache =
  cap :: nat
  entries :: "(string \<times> string) list"

datatype error = ConfigError

definition lru_New :: "int \<Rightarrow> error + Cache" where
  "lru_New n = (if n \<le> 0 then Inl ConfigError else Inr \<lparr>cap = nat n, entries = []\<rparr>)"

definition lru_Get :: "Cache \<Rightarrow> string \<Rightarrow> string option \<times> Cache" where
  "lru_Get c k =
     (case map_of (entries c) k of
        None \<Rightarrow> (None, c)
      | Some v \<Rightarrow> (Some v, c\<lparr>entries := (k, v) # AList.delete k (entries c)\<rparr>))"

definition lru_Add :: "Cache \<Rightarrow> string \<Rightarrow> string \<Rightarrow> Cache" where
  "lru_Add c k v = c\<lparr>entries := take (cap c) ((k, v) # AList.delete k (entries c))\<rparr>"

definition lru_Remove :: "Cache \<Rightarrow> string \<Rightarrow> Cache" where
  "lru_Remove c k = c\<lparr>entries := AList.delete k (entries c)\<rparr>"

definition lru_Purge :: "Cache \<Rightarrow> Cache" where
  "lru_Purge c = c\<lparr>entries := []\<rparr>"

definition lru_Len :: "Cache \<Rightarrow> nat" where
  "lru_Len c = length (entries c)"

section \<open>The disjoint-set structure\<close>

text \<open>
  The two Go maps of \<^theory_text>\<open>UnionFind\<close> are association lists; a loop over the keys of a map
  runs over the keys in the order of the list, where Go leaves the order open. The mutex is
  not modelled: every method runs to its end before the next one starts.
\<close>

record UnionFind =
  parent :: "(string \<times> string) list"
  rank :: "(string \<times> int) list"

definition NewUnionFind :: UnionFind where
  "NewUnionFind = \<lparr>parent = [], rank = []\<rparr>"

text \<open>Reading a key that a Go map does not hold gives the zero value.\<close>

definition rank_of :: "UnionFind \<Rightarrow> string \<Rightarrow> int" where
  "rank_of uf x = (case map_of (rank uf) x of None \<Rightarrow> 0 | Some r \<Rightarrow> r)"

text \<open>
  \<^theory_text>\<open>findWithoutLock\<close> follows the parent pointers by recursion and need not return when
  they run in a cycle, so it is a partial function with the new state in its result.
\<close>

partial_function (option) findWithoutLock :: "UnionFind \<Rightarrow> string \<Rightarrow> (string \<times> UnionFind) option"
where
  "findWithoutLock uf x =
     (case map_of (parent uf) x of
        None \<Rightarrow>
          Some (x, uf\<lparr>parent := AList.update x x (parent uf), rank := AList.update x 0 (rank uf)\<rparr>)
      | Some p \<Rightarrow>
          if p \<noteq> x then
            do {
              (r, uf') \<leftarrow> findWithoutLock uf p;
              Some (r, uf'\<lparr>parent := AList.update x r (parent uf')\<rparr>)
            }
          else Some (p, uf))"

declare findWithoutLock.simps [code]

definition Find :: "UnionFind \<Rightarrow> string \<Rightarrow> (string \<times> UnionFind) option" where
  "Find uf x = findWithoutLock uf x"

definition Union_uf :: "UnionFind \<Rightarrow> string \<Rightarrow> string \<Rightarrow> (string \<times> UnionFind) option" where
  "Union_uf uf id1 id2 =
     do {
       (root1, uf1) \<leftarrow> findWithoutLock uf id1;
       (root2, uf2) \<leftarrow> findWithoutLock uf1 id2;
       if root1 = root2 then Some (root1, uf2)
       else if rank_of uf2 root1 < rank_of uf2 root2 then
         Some (root2, uf2\<lparr>parent := AList.update root1 root2 (parent uf2)\<rparr>)
       else if rank_of uf2 root1 > rank_of uf2 root2 then
         Some (root1, uf2\<lparr>parent := AList.update root2 root1 (parent uf2)\<rparr>)
       else
         Some (root1, uf2\<lparr>parent := AList.update root2 root1 (parent uf2),
                           rank := AList.update root1 (rank_of uf2 root1 + 1) (rank uf2)\<rparr>)
     }"

definition Connected :: "UnionFind \<Rightarrow> string \<Rightarrow> string \<Rightarrow> (bool \<times> UnionFind) option" where
  "Connected uf id1 id2 =
     do {
       (r1, uf1) \<leftarrow> Find uf id1;
       (r2, uf2) \<leftarrow> Find uf1 id2;
       Some (r1 = r2, uf2)
     }"

text \<open>
  The loop of \<^theory_text>\<open>ComponentSize\<close> and \<^theory_text>\<open>GetComponentMembers\<close>: the keys whose
  representative is \<open>root\<close>, every lookup compressing its path.
\<close>

fun members_loop :: "string list \<Rightarrow> string \<Rightarrow> UnionFind \<Rightarrow> (string list \<times> UnionFind) option" where
  "members_loop [] root uf = Some ([], uf)"
| "members_loop (n # ns) root uf =
     do {
       (r, uf1) \<leftarrow> findWithoutLock uf n;
       (ms, uf2) \<leftarrow> members_loop ns root uf1;
       Some (if r = root then n # ms else ms, uf2)
     }"

definition ComponentSize :: "UnionFind \<Rightarrow> string \<Rightarrow> (nat \<times> UnionFind) option" where
  "ComponentSize uf x =
     do {
       (root, uf1) \<leftarrow> Find uf x;
       (ms, uf2) \<leftarrow> members_loop (map fst (parent uf1)) root uf1;
       Some (length ms, uf2)
     }"

definition Size :: "UnionFind \<Rightarrow> nat" where
  "Size uf = length (parent uf)"

definition GetComponentMembers :: "UnionFind \<Rightarrow> string \<Rightarrow> (string list \<times> UnionFind) option" where
  "GetComponentMembers uf x =
     do {
       (root, uf1) \<leftarrow> findWithoutLock uf x;
       members_loop (map fst (parent uf1)) root uf1
     }"

text \<open>
  \<^theory_text>\<open>GetAllComponents\<close>: the map from a representative to the members of its set, a
  member being appended to the entry of its representative.
\<close>

fun components_loop ::
  "string list \<Rightarrow> UnionFind \<Rightarrow> (string \<times> string list) list
     \<Rightarrow> ((string \<times> string list) list \<times> UnionFind) option" where
  "components_loop [] uf comps = Some (comps, uf)"
| "components_loop (n # ns) uf comps =
     do {
       (root, uf1) \<leftarrow> findWithoutLock uf n;
       components_loop ns uf1
         (AList.update root ((case map_of comps root of None \<Rightarrow> [] | Some ms \<Rightarrow> ms) @ [n]) comps)
     }"

definition GetAllComponents ::
  "map_order \<Rightarrow> UnionFind \<Rightarrow> ((string \<times> string list) list \<times> UnionFind) option" where
  "GetAllComponents ord uf = components_loop (range_keys ord 134 (map fst (parent uf))) uf []"

definition Clear_uf :: "UnionFind \<Rightarrow> UnionFind" where
  "Clear_uf uf = \<lparr>parent = [], rank = []\<rparr>"

section \<open>Identifiers and their normal form\<close>

text \<open>
  \<^theory_text>\<open>Identifiers\<close> is a Go map from the type of an identifier to its value: an association
  list with one entry for a type. \<^theory_text>\<open>normalizeIdentifiers\<close> is the same method, line by line,
  in both engines; it sorts what its loop over the map collects.
\<close>

type_synonym Identifiers = "(string \<times> string) list"

definition IdentifierEmail :: string where
  "IdentifierEmail = ''email''"

definition normalizeIdentifiers :: "Identifiers \<Rightarrow> string list" where
  "normalizeIdentifiers ids =
     sort (map (\<lambda>(idType, idValue).
                  idType @ '':'' @
                    (if idType = IdentifierEmail \<or> idType = ''email'' then ToLower idValue
                     else idValue))
               (filter (\<lambda>(idType, idValue). idValue \<noteq> []) ids))"

section \<open>The canonical-root engine\<close>

record CanonicalSessionGenerator =
  uf :: UnionFind
  cache :: Cache

definition NewCanonicalSessionGenerator :: "int \<Rightarrow> error + CanonicalSessionGenerator" where
  "NewCanonicalSessionGenerator cacheSize =
     (case lru_New cacheSize of
        Inl e \<Rightarrow> Inl e
      | Inr c \<Rightarrow> Inr \<lparr>uf = NewUnionFind, cache = c\<rparr>)"

definition priorities :: "string list" where
  "priorities = [''uid:'', ''email:'', ''client:'', ''device:'', ''cookie:'', ''jwt:'', ''custom:'']"

text \<open>The loop over the priorities: the least candidate of the first prefix that has one.\<close>

fun select_by_priority :: "string list \<Rightarrow> string list \<Rightarrow> string option" where
  "select_by_priority [] component = None"
| "select_by_priority (p # ps) component =
     (case filter (\<lambda>x. HasPrefix x p) component of
        [] \<Rightarrow> select_by_priority ps component
      | c # cs \<Rightarrow> Some (hd (sort (c # cs))))"

definition selectCanonical :: "UnionFind \<Rightarrow> string \<Rightarrow> (string \<times> UnionFind) option" where
  "selectCanonical u root =
     do {
       (component, u1) \<leftarrow> GetComponentMembers u root;
       if component = [] then Some (root, u1)
       else (case select_by_priority priorities component of
               Some c \<Rightarrow> Some (c, u1)
             | None \<Rightarrow> Some (hd (sort component), u1))
     }"

definition generateSessionKey :: "string \<Rightarrow> string" where
  "generateSessionKey canonical = ''sess_'' @ hex (take 8 (sha256 canonical))"

fun union_all :: "UnionFind \<Rightarrow> string \<Rightarrow> string list \<Rightarrow> (string \<times> UnionFind) option" where
  "union_all u root [] = Some (root, u)"
| "union_all u root (x # xs) =
     do {
       (root1, u1) \<leftarrow> Union_uf u root x;
       union_all u1 root1 xs
     }"

fun add_all :: "Cache \<Rightarrow> string list \<Rightarrow> string \<Rightarrow> Cache" where
  "add_all c [] v = c"
| "add_all c (k # ks) v = add_all (lru_Add c k v) ks v"

definition CSG_GetSessionKey ::
  "CanonicalSessionGenerator \<Rightarrow> Identifiers \<Rightarrow> (string \<times> CanonicalSessionGenerator) option" where
  "CSG_GetSessionKey csg ids =
     (case normalizeIdentifiers ids of
        [] \<Rightarrow> Some (''sess_anonymous'', csg)
      | first # others \<Rightarrow>
          do {
            (root0, u0) \<leftarrow> Find (uf csg) first;
            (root, u1) \<leftarrow> union_all u0 root0 others;
            (canonical, u2) \<leftarrow> selectCanonical u1 root;
            (case lru_Get (cache csg) first of
               (cachedKey, c1) \<Rightarrow>
                 if cachedKey = Some (generateSessionKey canonical)
                 then Some (generateSessionKey canonical,
                            \<lparr>uf = u2, cache = add_all c1 others (generateSessionKey canonical)\<rparr>)
                 else Some (generateSessionKey canonical,
                            \<lparr>uf = u2,
                             cache = add_all c1 (first # others) (generateSessionKey canonical)\<rparr>))
          })"

definition CSG_LinkIdentifiers ::
  "CanonicalSessionGenerator \<Rightarrow> string \<Rightarrow> string \<Rightarrow> CanonicalSessionGenerator option" where
  "CSG_LinkIdentifiers csg id1 id2 =
     (if id1 = [] \<or> id2 = [] then Some csg
      else
        do {
          (linked, u1) \<leftarrow> Connected (uf csg) id1 id2;
          if linked then Some (csg\<lparr>uf := u1\<rparr>)
          else
            do {
              (root, u2) \<leftarrow> Union_uf u1 id1 id2;
              Some \<lparr>uf = u2, cache = lru_Remove (lru_Remove (cache csg) id1) id2\<rparr>
            }
        })"

definition CSG_AreLinked ::
  "CanonicalSessionGenerator \<Rightarrow> string \<Rightarrow> string \<Rightarrow> (bool \<times> CanonicalSessionGenerator) option" where
  "CSG_AreLinked csg id1 id2 =
     (if id1 = [] \<or> id2 = [] then Some (False, csg)
      else
        do {
          (linked, u1) \<leftarrow> Connected (uf csg) id1 id2;
          Some (linked, csg\<lparr>uf := u1\<rparr>)
        })"

definition CSG_GetSessionSize ::
  "CanonicalSessionGenerator \<Rightarrow> string \<Rightarrow> (nat \<times> CanonicalSessionGenerator) option" where
  "CSG_GetSessionSize csg x =
     (if x = [] then Some (0, csg)
      else
        do {
          (n, u1) \<leftarrow> ComponentSize (uf csg) x;
          Some (n, csg\<lparr>uf := u1\<rparr>)
        })"

text \<open>The loop of \<^theory_text>\<open>GetAllSessions\<close> over the components.\<close>

fun sessions_loop ::
  "(string \<times> string list) list \<Rightarrow> UnionFind \<Rightarrow> (string \<times> string list) list
     \<Rightarrow> ((string \<times> string list) list \<times> UnionFind) option" where
  "sessions_loop [] u sessions = Some (sessions, u)"
| "sessions_loop ((root, members) # cs) u sessions =
     do {
       (canonical, u1) \<leftarrow> selectCanonical u root;
       sessions_loop cs u1 (AList.update (generateSessionKey canonical) members sessions)
     }"

definition CSG_GetAllSessions ::
  "map_order \<Rightarrow> CanonicalSessionGenerator
     \<Rightarrow> ((string \<times> string list) list \<times> CanonicalSessionGenerator) option" where
  "CSG_GetAllSessions ord csg =
     do {
       (components, u1) \<leftarrow> GetAllComponents ord (uf csg);
       (sessions, u2) \<leftarrow> sessions_loop (range_map ord 218 components) u1 [];
       Some (sessions, csg\<lparr>uf := u2\<rparr>)
     }"

definition CSG_Clear :: "CanonicalSessionGenerator \<Rightarrow> CanonicalSessionGenerator" where
  "CSG_Clear csg = \<lparr>uf = Clear_uf (uf csg), cache = lru_Purge (cache csg)\<rparr>"

text \<open>The statistics; the hit rate, which the code sets to zero, is left out.\<close>

record Stats =
  TotalIdentifiers :: nat
  TotalSessions :: nat
  CacheSize :: nat

definition CSG_GetStats ::
  "map_order \<Rightarrow> CanonicalSessionGenerator \<Rightarrow> (Stats \<times> CanonicalSessionGenerator) option" where
  "CSG_GetStats ord csg =
     do {
       (components, u1) \<leftarrow> GetAllComponents ord (uf csg);
       Some (\<lparr>TotalIdentifiers = Size u1, TotalSessions = length components,
               CacheSize = lru_Len (cache csg)\<rparr>,
             csg\<lparr>uf := u1\<rparr>)
     }"

section \<open>The structural-hash engine\<close>

text \<open>
  The graph \<^theory_text>\<open>edges\<close> maps a node to the set of its neighbours, a Go map to
  \<^theory_text>\<open>bool\<close> that only ever holds \<^theory_text>\<open>true\<close>: the list of its keys. A component, the
  map \<^theory_text>\<open>visited\<close> of the search, is the list of its keys as well, in the order in which
  the search met them.
\<close>

record SessionGenerator =
  edges :: "(string \<times> string list) list"
  cache_sg :: Cache
  hashCache :: "(string \<times> string) list"

definition NewSessionGenerator :: "int \<Rightarrow> error + SessionGenerator" where
  "NewSessionGenerator cacheSize =
     (case lru_New cacheSize of
        Inl e \<Rightarrow> Inl e
      | Inr c \<Rightarrow> Inr \<lparr>edges = [], cache_sg = c, hashCache = []\<rparr>)"

definition neighbours :: "(string \<times> string list) list \<Rightarrow> string \<Rightarrow> string list" where
  "neighbours e n = (case map_of e n of None \<Rightarrow> [] | Some ns \<Rightarrow> ns)"

definition ensure_node :: "(string \<times> string list) list \<Rightarrow> string \<Rightarrow> (string \<times> string list) list" where
  "ensure_node e n = (case map_of e n of None \<Rightarrow> AList.update n [] e | Some ns \<Rightarrow> e)"

definition insert_key :: "string \<Rightarrow> string list \<Rightarrow> string list" where
  "insert_key x xs = (if x \<in> set xs then xs else xs @ [x])"

definition addEdgeWithoutLock ::
  "(string \<times> string list) list \<Rightarrow> string \<Rightarrow> string \<Rightarrow> (string \<times> string list) list" where
  "addEdgeWithoutLock e from to =
     (let e1 = ensure_node e from;
          e2 = ensure_node e1 to;
          e3 = AList.update from (insert_key to (neighbours e2 from)) e2
      in AList.update to (insert_key from (neighbours e3 to)) e3)"

text \<open>One turn of the inner loop of the search: the neighbours not yet visited are marked and queued.\<close>

fun visit_neighbours :: "string list \<Rightarrow> string list \<times> string list \<Rightarrow> string list \<times> string list" where
  "visit_neighbours [] vq = vq"
| "visit_neighbours (n # ns) (visited, queue) =
     visit_neighbours ns
       (if n \<in> set visited then (visited, queue) else (visited @ [n], queue @ [n]))"

function bfs :: "(string \<times> string list) list \<Rightarrow> string list \<Rightarrow> string list \<Rightarrow> string list" where
  "bfs e visited [] = visited"
| "bfs e visited (current # queue) =
     (case visit_neighbours (neighbours e current) (visited, queue) of
        (visited1, queue1) \<Rightarrow> bfs e visited1 queue1)"
  by pat_completeness auto

definition findConnectedComponentWithoutLock ::
  "(string \<times> string list) list \<Rightarrow> string \<Rightarrow> string list" where
  "findConnectedComponentWithoutLock e startID =
     (case map_of e startID of
        None \<Rightarrow> [startID]
      | Some ns \<Rightarrow> bfs e [startID] [startID])"

definition computeFirstDegreeHash ::
  "(string \<times> string list) list \<Rightarrow> string \<Rightarrow> string list \<Rightarrow> string" where
  "computeFirstDegreeHash e nodeID component =
     hex (take 8 (sha256 (nodeID @ '':'' @
       Join (sort (filter (\<lambda>n. n \<in> set component) (neighbours e nodeID))) '','')))"

text \<open>The verb \<open>%d\<close> on a depth, which is never negative.\<close>

fun decimal :: "nat \<Rightarrow> string" where
  "decimal n =
     (if n < 10 then [''0123456789'' ! n] else decimal (n div 10) @ [''0123456789'' ! (n mod 10)])"

definition lookup_string :: "(string \<times> string) list \<Rightarrow> string \<Rightarrow> string" where
  "lookup_string m k = (case map_of m k of None \<Rightarrow> [] | Some v \<Rightarrow> v)"

text \<open>
  The search of \<^theory_text>\<open>computeNDegreeHash\<close>. An entry of the queue is the \<^theory_text>\<open>pathNode\<close>
  with its three fields.
\<close>

type_synonym pathNode = "string \<times> nat \<times> string"

fun nd_visit ::
  "string list \<Rightarrow> pathNode \<Rightarrow> string list \<Rightarrow> (string \<times> nat) list \<times> pathNode list
     \<Rightarrow> (string \<times> nat) list \<times> pathNode list" where
  "nd_visit component current [] vq = vq"
| "nd_visit component (cid, depth, path) (n # ns) (visited, queue) =
     nd_visit component (cid, depth, path) ns
       (if n \<notin> set component then (visited, queue)
        else
          (case map_of visited n of
             None \<Rightarrow> (AList.update n (depth + 1) visited, queue @ [(n, depth + 1, path @ ''->'' @ n)])
           | Some prevDepth \<Rightarrow>
               if depth + 1 < prevDepth
               then (AList.update n (depth + 1) visited, queue @ [(n, depth + 1, path @ ''->'' @ n)])
               else (visited, queue)))"

definition pathSignature ::
  "(string \<times> string list) list \<Rightarrow> string list \<Rightarrow> (string \<times> string) list \<Rightarrow> string \<Rightarrow> nat
     \<Rightarrow> string" where
  "pathSignature e component firstDegreeHashes cid depth =
     cid @ ''@'' @ decimal depth @ '':'' @
       Join (sort (map (lookup_string firstDegreeHashes)
                       (filter (\<lambda>n. n \<in> set component) (neighbours e cid)))) '',''"

function nd_loop ::
  "(string \<times> string list) list \<Rightarrow> string list \<Rightarrow> (string \<times> string) list \<Rightarrow> nat
     \<Rightarrow> (string \<times> nat) list \<Rightarrow> string list \<Rightarrow> pathNode list \<Rightarrow> string list" where
  "nd_loop e component fdh maxDepth visited paths [] = paths"
| "nd_loop e component fdh maxDepth visited paths ((cid, depth, path) # queue) =
     (if depth > maxDepth then nd_loop e component fdh maxDepth visited paths queue
      else
        (case nd_visit component (cid, depth, path) (neighbours e cid) (visited, queue) of
           (visited1, queue1) \<Rightarrow>
             nd_loop e component fdh maxDepth visited1
               (paths @ [pathSignature e component fdh cid depth]) queue1))"
  by pat_completeness auto

definition computeNDegreeHash ::
  "(string \<times> string list) list \<Rightarrow> string \<Rightarrow> string list \<Rightarrow> (string \<times> string) list \<Rightarrow> nat
     \<Rightarrow> string" where
  "computeNDegreeHash e nodeID component firstDegreeHashes maxDepth =
     hex (take 8 (sha256 (Join
       (sort (nd_loop e component firstDegreeHashes maxDepth [(nodeID, 0)] [] [(nodeID, 0, nodeID)]))
       ''|'')))"

definition lookup_list :: "(string \<times> string list) list \<Rightarrow> string \<Rightarrow> string list" where
  "lookup_list m k = (case map_of m k of None \<Rightarrow> [] | Some v \<Rightarrow> v)"

definition final_hashes ::
  "(string \<times> string list) list \<Rightarrow> string list \<Rightarrow> (string \<times> string) list
     \<Rightarrow> (string \<times> string) list" where
  "final_hashes e component firstDegreeHashes =
     fold (\<lambda>(h, nodes) finalHashes.
             if length nodes = 1 then AList.update (hd nodes) h finalHashes
             else fold (\<lambda>nodeID. AList.update nodeID
                          (computeNDegreeHash e nodeID component firstDegreeHashes 3))
                       nodes finalHashes)
          (fold (\<lambda>(nodeID, h) hashToNodes.
                   AList.update h (lookup_list hashToNodes h @ [nodeID]) hashToNodes)
                firstDegreeHashes [])
          []"

definition computeComponentCanonicalHash ::
  "map_order \<Rightarrow> nat \<Rightarrow> SessionGenerator \<Rightarrow> string list \<Rightarrow> string \<times> SessionGenerator" where
  "computeComponentCanonicalHash ord l sg component =
     (if component = [] then (''sess_empty'', sg)
      else
          (case map_of (hashCache sg) (hd (range_keys ord l component)) of
             Some cached \<Rightarrow> (cached, sg)
           | None \<Rightarrow>
               (let firstDegreeHashes =
                      fold (\<lambda>nodeID. AList.update nodeID
                              (computeFirstDegreeHash (edges sg) nodeID component)) component [];
                    allHashes = sort (map snd (final_hashes (edges sg) component firstDegreeHashes));
                    componentHash = ''sess_'' @ hex (take 8 (sha256 (Join allHashes ''|'')))
                in (componentHash,
                    sg\<lparr>hashCache :=
                         fold (\<lambda>nodeID. AList.update nodeID componentHash) component (hashCache sg)\<rparr>))))"

definition generateAnonymousSessionKey :: string where
  "generateAnonymousSessionKey = ''sess_anonymous''"

text \<open>The two nested loops of \<^theory_text>\<open>GetSessionKey\<close> that join the identifiers pairwise.\<close>

fun add_edges :: "string list \<Rightarrow> (string \<times> string list) list \<Rightarrow> (string \<times> string list) list" where
  "add_edges [] e = e"
| "add_edges (x # xs) e = add_edges xs (fold (\<lambda>y e1. addEdgeWithoutLock e1 x y) xs (ensure_node e x))"

definition SG_GetSessionKey ::
  "map_order \<Rightarrow> SessionGenerator \<Rightarrow> Identifiers \<Rightarrow> string \<times> SessionGenerator" where
  "SG_GetSessionKey ord sg ids =
     (case normalizeIdentifiers ids of
        [] \<Rightarrow> (generateAnonymousSessionKey, sg)
      | firstID # others \<Rightarrow>
          (case lru_Get (cache_sg sg) firstID of
             (Some cachedKey, c1) \<Rightarrow> (cachedKey, sg\<lparr>cache_sg := c1\<rparr>)
           | (None, c1) \<Rightarrow>
               (let e1 = add_edges (firstID # others) (edges sg);
                    component = findConnectedComponentWithoutLock e1 firstID
                in case computeComponentCanonicalHash ord 477 (sg\<lparr>edges := e1, cache_sg := c1\<rparr>)
                          component of
                     (sessionKey, sg1) \<Rightarrow>
                       (sessionKey,
                        sg1\<lparr>cache_sg :=
                              add_all (cache_sg sg1) (range_keys ord 480 component) sessionKey\<rparr>))))"

definition SG_LinkIdentifiers :: "SessionGenerator \<Rightarrow> string \<Rightarrow> string \<Rightarrow> SessionGenerator" where
  "SG_LinkIdentifiers sg id1 id2 =
     (if id1 = [] \<or> id2 = [] then sg
      else
        (let e1 = addEdgeWithoutLock (edges sg) id1 id2;
             c1 = lru_Remove (lru_Remove (cache_sg sg) id1) id2;
             component = findConnectedComponentWithoutLock e1 id1
         in \<lparr>edges = e1, cache_sg = c1,
             hashCache = fold AList.delete component (hashCache sg)\<rparr>))"

definition SG_AreLinked :: "SessionGenerator \<Rightarrow> string \<Rightarrow> string \<Rightarrow> bool" where
  "SG_AreLinked sg id1 id2 =
     (if id1 = [] \<or> id2 = [] then False
      else id2 \<in> set (findConnectedComponentWithoutLock (edges sg) id1))"

definition SG_GetSessionSize :: "SessionGenerator \<Rightarrow> string \<Rightarrow> nat" where
  "SG_GetSessionSize sg x =
     (if x = [] then 0 else length (findConnectedComponentWithoutLock (edges sg) x))"

text \<open>The loop of \<^theory_text>\<open>GetAllSessions\<close> over the nodes of the graph.\<close>

fun all_sessions_loop ::
  "map_order \<Rightarrow> string list \<Rightarrow> SessionGenerator \<Rightarrow> string list \<Rightarrow> (string \<times> string list) list
     \<Rightarrow> (string \<times> string list) list \<times> SessionGenerator" where
  "all_sessions_loop ord [] sg visited sessions = (sessions, sg)"
| "all_sessions_loop ord (nodeID # ns) sg visited sessions =
     (if nodeID \<in> set visited then all_sessions_loop ord ns sg visited sessions
      else
        (let component = findConnectedComponentWithoutLock (edges sg) nodeID
         in case computeComponentCanonicalHash ord 561 sg component of
              (sessionKey, sg1) \<Rightarrow>
                all_sessions_loop ord ns sg1 (visited @ component)
                  (AList.update sessionKey (sort component) sessions)))"

definition SG_GetAllSessions ::
  "map_order \<Rightarrow> SessionGenerator \<Rightarrow> (string \<times> string list) list \<times> SessionGenerator" where
  "SG_GetAllSessions ord sg =
     all_sessions_loop ord (range_keys ord 551 (map fst (edges sg))) sg [] []"

definition SG_ClearCache :: "SessionGenerator \<Rightarrow> SessionGenerator" where
  "SG_ClearCache sg = sg\<lparr>cache_sg := lru_Purge (cache_sg sg), hashCache := []\<rparr>"

definition SG_Clear :: "SessionGenerator \<Rightarrow> SessionGenerator" where
  "SG_Clear sg = \<lparr>edges = [], cache_sg = lru_Purge (cache_sg sg), hashCache = []\<rparr>"

definition SG_GetStats :: "map_order \<Rightarrow> SessionGenerator \<Rightarrow> Stats \<times> SessionGenerator" where
  "SG_GetStats ord sg =
     (case SG_GetAllSessions ord sg of
        (sessions, sg1) \<Rightarrow>
          (\<lparr>TotalIdentifiers = length (edges sg), TotalSessions = length sessions,
            CacheSize = lru_Len (cache_sg sg1)\<rparr>, sg1))"

section \<open>The history wrapper\<close>

text \<open>
  \<^theory_text>\<open>SessionGeneratorWithHistory\<close> embeds the structural-hash engine. The time of an update
  is the reading \<open>now\<close> of the clock, which the caller of the model supplies.
\<close>

record SessionKeyHistory =
  CurrentKey :: string
  OldKeys :: "string list"
  UpdatedAt :: nat

record SessionGeneratorWithHistory =
  generator :: SessionGenerator
  history :: "(string \<times> SessionKeyHistory) list"
  oldToNew :: "(string \<times> string) list"

definition NewSessionGeneratorWithHistory :: "int \<Rightarrow> error + SessionGeneratorWithHistory" where
  "NewSessionGeneratorWithHistory cacheSize =
     (case NewSessionGenerator cacheSize of
        Inl e \<Rightarrow> Inl e
      | Inr sg \<Rightarrow> Inr \<lparr>generator = sg, history = [], oldToNew = []\<rparr>)"

definition append_new :: "string \<Rightarrow> string list \<Rightarrow> string list" where
  "append_new k ks = (if k \<in> set ks then ks else ks @ [k])"

definition trackKeyChange ::
  "SessionGeneratorWithHistory \<Rightarrow> nat \<Rightarrow> string \<Rightarrow> string \<Rightarrow> SessionGeneratorWithHistory" where
  "trackKeyChange sgh now oldKey newKey =
     (if oldKey = newKey then sgh
      else
        (let newHistory =
               (case map_of (history sgh) newKey of
                  Some h \<Rightarrow> h
                | None \<Rightarrow> \<lparr>CurrentKey = newKey, OldKeys = [], UpdatedAt = now\<rparr>);
             newHistory1 =
               (if oldKey \<in> set (OldKeys newHistory) then newHistory
                else newHistory\<lparr>OldKeys := OldKeys newHistory @ [oldKey], UpdatedAt := now\<rparr>);
             oldToNew1 = AList.update oldKey newKey (oldToNew sgh)
         in case map_of (AList.update newKey newHistory1 (history sgh)) oldKey of
              None \<Rightarrow>
                sgh\<lparr>history := AList.update newKey newHistory1 (history sgh), oldToNew := oldToNew1\<rparr>
            | Some oldHistory \<Rightarrow>
                sgh\<lparr>history :=
                       AList.delete oldKey
                         (AList.update newKey
                            (newHistory1\<lparr>OldKeys := fold append_new (OldKeys oldHistory)
                                                        (OldKeys newHistory1)\<rparr>)
                            (history sgh)),
                    oldToNew :=
                      fold (\<lambda>ancestorKey. AList.update ancestorKey newKey) (OldKeys oldHistory)
                        oldToNew1\<rparr>))"

definition initializeHistory ::
  "SessionGeneratorWithHistory \<Rightarrow> nat \<Rightarrow> string \<Rightarrow> SessionGeneratorWithHistory" where
  "initializeHistory sgh now sessionKey =
     (case map_of (history sgh) sessionKey of
        Some h \<Rightarrow> sgh
      | None \<Rightarrow>
          sgh\<lparr>history := AList.update sessionKey
                            \<lparr>CurrentKey = sessionKey, OldKeys = [], UpdatedAt = now\<rparr> (history sgh)\<rparr>)"

text \<open>
  The first loop of \<^theory_text>\<open>GetSessionKey\<close>: the first entry it meets with a value that is not
  empty, as type, colon and value, the value as it was given.
\<close>

fun sample_id :: "Identifiers \<Rightarrow> string" where
  "sample_id [] = []"
| "sample_id ((idType, idValue) # r) = (if idValue \<noteq> [] then idType @ '':'' @ idValue else sample_id r)"

definition SGH_GetSessionKey ::
  "map_order \<Rightarrow> SessionGeneratorWithHistory \<Rightarrow> nat \<Rightarrow> Identifiers
     \<Rightarrow> string \<times> SessionGeneratorWithHistory" where
  "SGH_GetSessionKey ord sgh now ids =
     (let sampleID = sample_id (range_map ord 55 ids);
          (oldKey, sg0) =
            (if sampleID \<noteq> [] then
               (case lru_Get (cache_sg (generator sgh)) sampleID of
                  (Some cached, c1) \<Rightarrow> (cached, (generator sgh)\<lparr>cache_sg := c1\<rparr>)
                | (None, c1) \<Rightarrow> ([], generator sgh))
             else ([], generator sgh))
      in case SG_GetSessionKey ord sg0 ids of
           (newKey, sg1) \<Rightarrow>
             (newKey,
              if oldKey \<noteq> [] \<and> oldKey \<noteq> newKey
              then trackKeyChange (sgh\<lparr>generator := sg1\<rparr>) now oldKey newKey
              else if oldKey = [] then initializeHistory (sgh\<lparr>generator := sg1\<rparr>) now newKey
              else sgh\<lparr>generator := sg1\<rparr>))"

text \<open>The key of an identifier before a link: the cached one, or the hash of its component.\<close>

definition key_before ::
  "map_order \<Rightarrow> nat \<Rightarrow> SessionGenerator \<Rightarrow> string \<Rightarrow> string \<times> SessionGenerator" where
  "key_before ord l sg x =
     (case lru_Get (cache_sg sg) x of
        (Some k, c1) \<Rightarrow> (k, sg\<lparr>cache_sg := c1\<rparr>)
      | (None, c1) \<Rightarrow>
          computeComponentCanonicalHash ord l sg (findConnectedComponentWithoutLock (edges sg) x))"

definition SGH_LinkIdentifiers ::
  "map_order \<Rightarrow> SessionGeneratorWithHistory \<Rightarrow> nat \<Rightarrow> string \<Rightarrow> string
     \<Rightarrow> SessionGeneratorWithHistory" where
  "SGH_LinkIdentifiers ord sgh now id1 id2 =
     (if id1 = [] \<or> id2 = [] then sgh
      else
        (case key_before ord 99 (generator sgh) id1 of
           (oldKey1, sg1) \<Rightarrow>
        (case key_before ord 105 sg1 id2 of
           (oldKey2, sg2) \<Rightarrow>
        (let e1 = addEdgeWithoutLock (edges sg2) id1 id2;
             c1 = lru_Remove (lru_Remove (cache_sg sg2) id1) id2;
             component = findConnectedComponentWithoutLock e1 id1;
             sg3 = \<lparr>edges = e1, cache_sg = c1,
                    hashCache = fold AList.delete component (hashCache sg2)\<rparr>
         in case computeComponentCanonicalHash ord 120 sg3 component of
              (newKey, sg4) \<Rightarrow>
                (let sgh1 = (if oldKey1 \<noteq> newKey
                             then trackKeyChange (sgh\<lparr>generator := sg4\<rparr>) now oldKey1 newKey
                             else sgh\<lparr>generator := sg4\<rparr>)
                 in if oldKey2 \<noteq> newKey \<and> oldKey2 \<noteq> oldKey1
                    then trackKeyChange sgh1 now oldKey2 newKey
                    else sgh1)))))"

definition GetSessionKeyHistory ::
  "SessionGeneratorWithHistory \<Rightarrow> nat \<Rightarrow> string \<Rightarrow> SessionKeyHistory" where
  "GetSessionKeyHistory sgh now sessionKey =
     (let sessionKey1 = (case map_of (oldToNew sgh) sessionKey of
                           Some currentKey \<Rightarrow> currentKey
                         | None \<Rightarrow> sessionKey)
      in case map_of (history sgh) sessionKey1 of
           Some h \<Rightarrow> h
         | None \<Rightarrow> \<lparr>CurrentKey = sessionKey1, OldKeys = [], UpdatedAt = now\<rparr>)"

definition GetAllSessionKeys :: "SessionGeneratorWithHistory \<Rightarrow> nat \<Rightarrow> string \<Rightarrow> string list" where
  "GetAllSessionKeys sgh now sessionKey =
     (let h = GetSessionKeyHistory sgh now sessionKey in CurrentKey h # OldKeys h)"

record StatsWithHistory =
  BaseStats :: Stats
  TotalHistoricalKeys :: nat
  SessionsWithHistory :: nat

definition GetStatsWithHistory ::
  "map_order \<Rightarrow> SessionGeneratorWithHistory \<Rightarrow> StatsWithHistory \<times> SessionGeneratorWithHistory" where
  "GetStatsWithHistory ord sgh =
     (case SG_GetStats ord (generator sgh) of
        (baseStats, sg1) \<Rightarrow>
          (\<lparr>BaseStats = baseStats, TotalHistoricalKeys = length (oldToNew sgh),
            SessionsWithHistory = length (filter (\<lambda>(k, h). OldKeys h \<noteq> []) (history sgh))\<rparr>,
           sgh\<lparr>generator := sg1\<rparr>))"

definition SGH_Clear :: "SessionGeneratorWithHistory \<Rightarrow> SessionGeneratorWithHistory" where
  "SGH_Clear sgh = \<lparr>generator = SG_Clear (generator sgh), history = [], oldToNew = []\<rparr>"

section \<open>Sequences of calls\<close>

text \<open>
  The public methods of an engine as a datatype, and the run of a list of calls that
  collects what the calls return. A run of the canonical-root engine has a result when
  every lookup of a representative in it returns.
\<close>

datatype reply =
    Key string
  | Flag bool
  | Count nat
  | Sessions "(string \<times> string list) list"
  | StatsOf Stats
  | Done

datatype call =
    GetSessionKey Identifiers
  | LinkIdentifiers string string
  | AreLinked string string
  | GetSessionSize string
  | GetAllSessions
  | ClearCache
  | Clear
  | GetStats

text \<open>The canonical-root engine has no method \<^theory_text>\<open>ClearCache\<close>: the run stops there.\<close>

fun csg_call ::
  "map_order \<Rightarrow> CanonicalSessionGenerator \<Rightarrow> call
     \<Rightarrow> (reply \<times> CanonicalSessionGenerator) option" where
  "csg_call ord s (GetSessionKey ids) =
     map_option (\<lambda>(k, s1). (Key k, s1)) (CSG_GetSessionKey s ids)"
| "csg_call ord s (LinkIdentifiers a b) = map_option (\<lambda>s1. (Done, s1)) (CSG_LinkIdentifiers s a b)"
| "csg_call ord s (AreLinked a b) = map_option (\<lambda>(r, s1). (Flag r, s1)) (CSG_AreLinked s a b)"
| "csg_call ord s (GetSessionSize a) =
     map_option (\<lambda>(n, s1). (Count n, s1)) (CSG_GetSessionSize s a)"
| "csg_call ord s GetAllSessions =
     map_option (\<lambda>(m, s1). (Sessions m, s1)) (CSG_GetAllSessions ord s)"
| "csg_call ord s ClearCache = None"
| "csg_call ord s Clear = Some (Done, CSG_Clear s)"
| "csg_call ord s GetStats = map_option (\<lambda>(st, s1). (StatsOf st, s1)) (CSG_GetStats ord s)"

fun csg_run ::
  "CanonicalSessionGenerator \<Rightarrow> (map_order \<times> call) list
     \<Rightarrow> (reply list \<times> CanonicalSessionGenerator) option" where
  "csg_run s [] = Some ([], s)"
| "csg_run s ((ord, c) # cs) =
     do {
       (r, s1) \<leftarrow> csg_call ord s c;
       (rs, s2) \<leftarrow> csg_run s1 cs;
       Some (r # rs, s2)
     }"

fun sg_call :: "map_order \<Rightarrow> SessionGenerator \<Rightarrow> call \<Rightarrow> reply \<times> SessionGenerator" where
  "sg_call ord s (GetSessionKey ids) =
     (case SG_GetSessionKey ord s ids of (k, s1) \<Rightarrow> (Key k, s1))"
| "sg_call ord s (LinkIdentifiers a b) = (Done, SG_LinkIdentifiers s a b)"
| "sg_call ord s (AreLinked a b) = (Flag (SG_AreLinked s a b), s)"
| "sg_call ord s (GetSessionSize a) = (Count (SG_GetSessionSize s a), s)"
| "sg_call ord s GetAllSessions = (case SG_GetAllSessions ord s of (m, s1) \<Rightarrow> (Sessions m, s1))"
| "sg_call ord s ClearCache = (Done, SG_ClearCache s)"
| "sg_call ord s Clear = (Done, SG_Clear s)"
| "sg_call ord s GetStats = (case SG_GetStats ord s of (st, s1) \<Rightarrow> (StatsOf st, s1))"

fun sg_run ::
  "SessionGenerator \<Rightarrow> (map_order \<times> call) list \<Rightarrow> reply list \<times> SessionGenerator" where
  "sg_run s [] = ([], s)"
| "sg_run s ((ord, c) # cs) =
     (case sg_call ord s c of
        (r, s1) \<Rightarrow> (case sg_run s1 cs of (rs, s2) \<Rightarrow> (r # rs, s2)))"

text \<open>
  The calls on the wrapper: its own methods, the methods of the embedded engine that it
  does not override, and the two queries of the history. Every call is made at a reading
  of the clock.
\<close>

datatype hcall =
    Engine call
  | GetHistory string
  | GetAllKeys string
  | GetStatsH

datatype hreply =
    Reply reply
  | HistoryOf SessionKeyHistory
  | Keys "string list"
  | StatsH StatsWithHistory

fun sgh_call ::
  "map_order \<Rightarrow> SessionGeneratorWithHistory \<Rightarrow> nat \<Rightarrow> hcall
     \<Rightarrow> hreply \<times> SessionGeneratorWithHistory" where
  "sgh_call ord s now (Engine (GetSessionKey ids)) =
     (case SGH_GetSessionKey ord s now ids of (k, s1) \<Rightarrow> (Reply (Key k), s1))"
| "sgh_call ord s now (Engine (LinkIdentifiers a b)) =
     (Reply Done, SGH_LinkIdentifiers ord s now a b)"
| "sgh_call ord s now (Engine Clear) = (Reply Done, SGH_Clear s)"
| "sgh_call ord s now (Engine c) =
     (case sg_call ord (generator s) c of (r, sg1) \<Rightarrow> (Reply r, s\<lparr>generator := sg1\<rparr>))"
| "sgh_call ord s now (GetHistory k) = (HistoryOf (GetSessionKeyHistory s now k), s)"
| "sgh_call ord s now (GetAllKeys k) = (Keys (GetAllSessionKeys s now k), s)"
| "sgh_call ord s now GetStatsH =
     (case GetStatsWithHistory ord s of (st, s1) \<Rightarrow> (StatsH st, s1))"

fun sgh_run ::
  "SessionGeneratorWithHistory \<Rightarrow> (map_order \<times> nat \<times> hcall) list
     \<Rightarrow> hreply list \<times> SessionGeneratorWithHistory" where
  "sgh_run s [] = ([], s)"
| "sgh_run s ((ord, now, c) # cs) =
     (case sgh_call ord s now c of
        (r, s1) \<Rightarrow> (case sgh_run s1 cs of (rs, s2) \<Rightarrow> (r # rs, s2)))"

section \<open>Notions for stating the properties\<close>

text \<open>
  The weight of a node in the second search: its depth, at most two more than the greatest
  depth that is explored, which is also the weight of a node not yet met.
\<close>

definition nd_weight :: "nat \<Rightarrow> (string \<times> nat) list \<Rightarrow> string \<Rightarrow> nat" where
  "nd_weight maxDepth visited n =
     (case map_of visited n of None \<Rightarrow> maxDepth + 2 | Some d \<Rightarrow> min d (maxDepth + 2))"

definition nd_measure :: "string list \<Rightarrow> nat \<Rightarrow> (string \<times> nat) list \<Rightarrow> nat" where
  "nd_measure component maxDepth visited = (\<Sum>n \<in> set component. nd_weight maxDepth visited n)"

subsection \<open>The partition that a disjoint-set structure stands for\<close>

text \<open>
  \<open>reaches m x r\<close>: following the parent pointers of the map \<open>m\<close> from \<open>x\<close> ends in the
  root \<open>r\<close>, an element that is its own parent.
\<close>

inductive reaches :: "(string \<rightharpoonup> string) \<Rightarrow> string \<Rightarrow> string \<Rightarrow> bool" for m where
  root: "m x = Some x \<Longrightarrow> reaches m x x"
| step: "m x = Some y \<Longrightarrow> y \<noteq> x \<Longrightarrow> reaches m y r \<Longrightarrow> reaches m x r"

text \<open>The atoms that the structure knows.\<close>

definition keys :: "UnionFind \<Rightarrow> string set" where
  "keys u = fst ` set (parent u)"

text \<open>
  The structure is well formed when no atom has two entries in the parent map and the
  parent pointers lead from every atom to a root, so that no walk along them goes round in
  a circle.
\<close>

definition uf_inv :: "UnionFind \<Rightarrow> bool" where
  "uf_inv u \<longleftrightarrow>
     distinct (map fst (parent u)) \<and> (\<forall>x \<in> keys u. \<exists>r. reaches (map_of (parent u)) x r)"

text \<open>
  The representative of an atom: the root that its parent pointers lead to, and the atom
  itself when the structure does not know it. Two atoms are in one component when they have
  the same representative.
\<close>

definition rep :: "UnionFind \<Rightarrow> string \<Rightarrow> string" where
  "rep u x = (if x \<in> keys u then (THE r. reaches (map_of (parent u)) x r) else x)"

text \<open>
  \<open>same_partition u X u'\<close>: the structure \<open>u'\<close> is well formed, knows the atoms of \<open>u\<close> and
  those of \<open>X\<close>, and every atom has the representative that it has in \<open>u\<close>.
\<close>

definition same_partition :: "UnionFind \<Rightarrow> string set \<Rightarrow> UnionFind \<Rightarrow> bool" where
  "same_partition u X u' \<longleftrightarrow>
     uf_inv u' \<and> keys u' = keys u \<union> X \<and> rep u' = rep u"

subsection \<open>The canonical-root engine\<close>

text \<open>
  The choice that \<^theory_text>\<open>selectCanonical\<close> makes among the members of a component: the least
  member with the first prefix of the priority list that any member has, and the least
  member of all when no member has a prefix of the list.
\<close>

definition canonical :: "string list \<Rightarrow> string" where
  "canonical component =
     (case select_by_priority priorities component of
        Some c \<Rightarrow> c
      | None \<Rightarrow> hd (sort component))"

definition csg_inv :: "CanonicalSessionGenerator \<Rightarrow> bool" where
  "csg_inv s \<longleftrightarrow> uf_inv (uf s)"

text \<open>The atoms that a lookup of the atoms \<open>A\<close> joins, as a set of the state before it.\<close>

definition joined :: "UnionFind \<Rightarrow> string set \<Rightarrow> string set" where
  "joined u A = {y \<in> keys u \<union> A. \<exists>z \<in> A. rep u y = rep u z}"

text \<open>The atoms that a call names.\<close>

fun atoms_of :: "call \<Rightarrow> string set" where
  "atoms_of (GetSessionKey ids) = set (normalizeIdentifiers ids)"
| "atoms_of (LinkIdentifiers a b) = {a, b}"
| "atoms_of (AreLinked a b) = {a, b}"
| "atoms_of (GetSessionSize a) = {a}"
| "atoms_of c = {}"

text \<open>
  The atoms that a call links with one another: the normal forms of a lookup, and the two
  arguments of a link when neither is empty.
\<close>

fun link_atoms :: "call \<Rightarrow> string set" where
  "link_atoms (GetSessionKey ids) = set (normalizeIdentifiers ids)"
| "link_atoms (LinkIdentifiers a b) = (if a = [] \<or> b = [] then {} else {a, b})"
| "link_atoms c = {}"

section \<open>Termination of the two searches\<close>

text \<open>
  The first search ends: a turn either marks no node and shortens the queue, or marks a
  node of the graph that was not marked.
\<close>

lemma visit_neighbours_cases:
  "visit_neighbours ns (v, q) = (v', q') \<Longrightarrow>
     (v' = v \<and> q' = q) \<or>
     (set v \<subseteq> set v' \<and> set v' \<subseteq> set v \<union> set ns \<and> (\<exists>y \<in> set v'. y \<notin> set v))"
proof (induction ns arbitrary: v q)
  case Nil
  then show ?case by simp
next
  case (Cons n ns)
  show ?case
  proof (cases "n \<in> set v")
    case True
    with Cons.prems have "visit_neighbours ns (v, q) = (v', q')" by simp
    from Cons.IH[OF this] show ?thesis by fastforce
  next
    case False
    with Cons.prems have "visit_neighbours ns (v @ [n], q @ [n]) = (v', q')" by simp
    from Cons.IH[OF this]
    have "set (v @ [n]) \<subseteq> set v' \<and> set v' \<subseteq> set (v @ [n]) \<union> set ns"
      by fastforce
    then have "set v \<subseteq> set v'" "set v' \<subseteq> set v \<union> set (n # ns)" "n \<in> set v'"
      by auto
    with False show ?thesis by blast
  qed
qed

lemma neighbours_subset: "set (neighbours e c) \<subseteq> \<Union>(set ` snd ` set e)"
proof
  fix x assume "x \<in> set (neighbours e c)"
  then obtain ns where "map_of e c = Some ns" "x \<in> set ns"
    by (cases "map_of e c") (auto simp: neighbours_def)
  then have "(c, ns) \<in> set e" by (auto dest: map_of_SomeD)
  with \<open>x \<in> set ns\<close> show "x \<in> \<Union>(set ` snd ` set e)" by force
qed

termination bfs
proof (relation "inv_image (less_than <*lex*> less_than)
         (\<lambda>(e, visited, queue). (card (\<Union>(set ` snd ` set e) - set visited), length queue))",
       goal_cases)
  case 1
  then show ?case by (intro wf_inv_image wf_lex_prod wf_less_than)
next
  case (2 e visited current queue x1 x2)
  then have "visit_neighbours (neighbours e current) (visited, queue) = (x1, x2)" by simp
  from visit_neighbours_cases[OF this]
  show ?case
  proof
    assume "x1 = visited \<and> x2 = queue"
    then show ?thesis by simp
  next
    assume a: "set visited \<subseteq> set x1 \<and> set x1 \<subseteq> set visited \<union> set (neighbours e current)
        \<and> (\<exists>y \<in> set x1. y \<notin> set visited)"
    let ?N = "\<Union>(set ` snd ` set e)"
    from a obtain y where y: "y \<in> set x1" "y \<notin> set visited" by auto
    with a neighbours_subset[of e current] have "y \<in> ?N" by auto
    with y a have "?N - set x1 \<subset> ?N - set visited" by auto
    moreover have "finite (?N - set visited)" by auto
    ultimately have "card (?N - set x1) < card (?N - set visited)"
      by (rule psubset_card_mono[rotated])
    then show ?thesis by simp
  qed
qed

text \<open>
  The second search ends as well: a turn either leaves the depths alone and shortens the
  queue, or lowers the depth of a node of the component.
\<close>

lemma nd_measure_update:
  assumes "n \<in> set component" "d + 1 \<le> maxDepth + 1"
    and "map_of visited n = None \<or> (\<exists>p. map_of visited n = Some p \<and> d + 1 < p)"
  shows "nd_measure component maxDepth (AList.update n (d + 1) visited)
           < nd_measure component maxDepth visited"
  unfolding nd_measure_def
proof (rule sum_strict_mono_ex1)
  show "finite (set component)" by simp
  show "\<forall>x\<in>set component. nd_weight maxDepth (AList.update n (d + 1) visited) x
          \<le> nd_weight maxDepth visited x"
    using assms by (auto simp: nd_weight_def update_conv' split: option.splits)
  show "\<exists>a\<in>set component. nd_weight maxDepth (AList.update n (d + 1) visited) a
          < nd_weight maxDepth visited a"
    using assms by (intro bexI[of _ n]) (auto simp: nd_weight_def update_conv' split: option.splits)
qed

lemma nd_visit_cases:
  "nd_visit component (cid, d, p) ns (v, q) = (v', q') \<Longrightarrow> d \<le> maxDepth \<Longrightarrow>
     (v' = v \<and> q' = q) \<or> nd_measure component maxDepth v' < nd_measure component maxDepth v"
proof (induction ns arbitrary: v q)
  case Nil
  then show ?case by simp
next
  case (Cons n ns)
  let ?upd = "(AList.update n (d + 1) v, q @ [(n, d + 1, p @ ''->'' @ n)])"
  consider (skip) "nd_visit component (cid, d, p) ns (v, q) = (v', q')"
    | (upd) "n \<in> set component"
        "map_of v n = None \<or> (\<exists>pd. map_of v n = Some pd \<and> d + 1 < pd)"
        "nd_visit component (cid, d, p) ns ?upd = (v', q')"
    using Cons.prems(1) by (auto split: option.splits if_splits)
  then show ?case
  proof cases
    case skip
    from Cons.IH[OF this Cons.prems(2)] show ?thesis .
  next
    case upd
    from nd_measure_update[OF upd(1) _ upd(2), of maxDepth] Cons.prems(2)
    have less: "nd_measure component maxDepth (AList.update n (d + 1) v)
                  < nd_measure component maxDepth v" by simp
    from Cons.IH[OF upd(3) Cons.prems(2)] less show ?thesis by auto
  qed
qed

termination nd_loop
proof (relation "inv_image (less_than <*lex*> less_than)
         (\<lambda>(e, component, fdh, maxDepth, visited, paths, queue).
            (nd_measure component maxDepth visited, length queue))", goal_cases)
  case 1
  then show ?case by (intro wf_inv_image wf_lex_prod wf_less_than)
next
  case 2
  then show ?case by simp
next
  case (3 e component fdh maxDepth visited paths cid depth path queue x1 x2)
  then have "nd_visit component (cid, depth, path) (neighbours e cid) (visited, queue) = (x1, x2)"
    and "depth \<le> maxDepth" by simp_all
  from nd_visit_cases[OF this] show ?case by auto
qed

section \<open>Rules for running the model on given calls\<close>

lemmas lib_eval = range_keys_def range_map_def list_order_def normalizeIdentifiers_def IdentifierEmail_def ToLower_def asciiLower_def byte_of_nat_def
  HasPrefix_def lru_Get_def lru_Add_def lru_Remove_def lru_Purge_def lru_Len_def

lemmas csg_eval = NewUnionFind_def CSG_LinkIdentifiers_def Connected_def Find_def Union_uf_def rank_of_def
  findWithoutLock.simps CSG_GetSessionKey_def selectCanonical_def GetComponentMembers_def
  priorities_def CSG_AreLinked_def CSG_GetSessionSize_def ComponentSize_def

lemmas sg_eval = SG_LinkIdentifiers_def SG_GetSessionKey_def SG_AreLinked_def SG_GetSessionSize_def
  addEdgeWithoutLock_def ensure_node_def neighbours_def insert_key_def findConnectedComponentWithoutLock_def
  computeComponentCanonicalHash_def computeFirstDegreeHash_def final_hashes_def lookup_list_def
  generateAnonymousSessionKey_def Let_def

section \<open>New engines\<close>

lemma NewCanonicalSessionGenerator_Inr:
  "NewCanonicalSessionGenerator n = Inr csg \<longleftrightarrow>
     0 < n \<and> csg = \<lparr>uf = NewUnionFind, cache = \<lparr>cap = nat n, entries = []\<rparr>\<rparr>"
  by (auto simp: NewCanonicalSessionGenerator_def lru_New_def)


section \<open>The disjoint-set structure: representatives\<close>

lemma keys_dom: "keys u = dom (map_of (parent u))"
  by (simp add: keys_def dom_map_of_conv_image_fst)

lemma reaches_root: "reaches m x r \<Longrightarrow> m r = Some r"
  by (induction rule: reaches.induct) auto

lemma reaches_dom: "reaches m x r \<Longrightarrow> x \<in> dom m"
  by (induction rule: reaches.induct) auto

lemma reaches_det: "reaches m x r \<Longrightarrow> reaches m x r' \<Longrightarrow> r' = r"
proof (induction arbitrary: r' rule: reaches.induct)
  case (root x)
  from root.prems root.hyps show ?case by (cases rule: reaches.cases) auto
next
  case (step x y r)
  from step.prems step.hyps(1,2) have "reaches m y r'" by (cases rule: reaches.cases) auto
  then show ?case by (rule step.IH)
qed

lemma reaches_compress:
  assumes xr: "reaches m x r" and ys: "reaches m y s"
  shows "reaches (m(x \<mapsto> r)) y s"
  using ys
proof (induction rule: reaches.induct)
  case (root y)
  show ?case
  proof (cases "y = x")
    case True
    with xr root have "r = y" using reaches.root[of m y] reaches_det by blast
    with True show ?thesis by (simp add: reaches.root)
  next
    case False
    with root show ?thesis by (simp add: reaches.root)
  qed
next
  case (step y z s)
  show ?case
  proof (cases "y = x")
    case True
    from step.hyps have "reaches m y s" by (rule reaches.step)
    with xr True have rs: "r = s" using reaches_det by blast
    have "m r = Some r" using xr by (rule reaches_root)
    have "r \<noteq> x"
    proof
      assume "r = x"
      with \<open>m r = Some r\<close> step.hyps(1,2) True show False by simp
    qed
    then have "reaches (m(x \<mapsto> r)) r r" using \<open>m r = Some r\<close> by (simp add: reaches.root)
    with \<open>r \<noteq> x\<close> have "reaches (m(x \<mapsto> r)) x r" by (intro reaches.step[of _ x r]) auto
    with True rs show ?thesis by (simp only:)
  next
    case False
    with step show ?thesis by (intro reaches.step[of _ y z]) auto
  qed
qed

lemma reaches_fresh:
  assumes "x \<notin> dom m" and "reaches m y s"
  shows "reaches (m(x \<mapsto> x)) y s"
  using assms(2)
proof (induction rule: reaches.induct)
  case (root y)
  with assms(1) show ?case by (intro reaches.root) auto
next
  case (step y z s)
  with assms(1) show ?case by (intro reaches.step[of _ y z]) auto
qed

lemma reaches_link:
  assumes "m r1 = Some r1" and "m r2 = Some r2" and "r1 \<noteq> r2" and "reaches m y s"
  shows "reaches (m(r1 \<mapsto> r2)) y (if s = r1 then r2 else s)"
  using assms(4)
proof (induction rule: reaches.induct)
  case (root y)
  show ?case
  proof (cases "y = r1")
    case True
    have "reaches (m(r1 \<mapsto> r2)) r2 r2" using assms by (intro reaches.root) auto
    then have "reaches (m(r1 \<mapsto> r2)) r1 r2" using assms(3) by (intro reaches.step[of _ r1 r2]) auto
    with True show ?thesis by (simp only: refl if_True)
  next
    case False
    with root show ?thesis by (simp add: reaches.root)
  qed
next
  case (step y z s)
  from step.hyps(1,2) assms(1) have "y \<noteq> r1" by auto
  with step show ?case by (intro reaches.step[of _ y z]) auto
qed

lemma rep_eq:
  assumes "reaches (map_of (parent u)) x r"
  shows "rep u x = r"
proof -
  from assms have "x \<in> keys u" by (simp add: keys_dom reaches_dom)
  moreover have "(THE r. reaches (map_of (parent u)) x r) = r"
    using assms by (rule the_equality) (rule reaches_det[OF assms])
  ultimately show ?thesis by (simp add: rep_def)
qed

lemma rep_unknown [simp]: "x \<notin> keys u \<Longrightarrow> rep u x = x"
  by (simp add: rep_def)

lemma rep_reaches:
  assumes "uf_inv u" and "x \<in> keys u"
  shows "reaches (map_of (parent u)) x (rep u x)"
proof -
  from assms obtain r where r: "reaches (map_of (parent u)) x r"
    unfolding uf_inv_def by blast
  with rep_eq[OF r] show ?thesis by simp
qed

lemma rep_in_keys: "uf_inv u \<Longrightarrow> x \<in> keys u \<Longrightarrow> rep u x \<in> keys u"
  using rep_reaches[of u x] reaches_root[of "map_of (parent u)" x "rep u x"]
  by (auto simp: keys_dom)

lemma rep_root: "uf_inv u \<Longrightarrow> x \<in> keys u \<Longrightarrow> map_of (parent u) (rep u x) = Some (rep u x)"
  using rep_reaches[of u x] reaches_root[of "map_of (parent u)" x "rep u x"] by simp

lemma rep_idem: "uf_inv u \<Longrightarrow> rep u (rep u x) = rep u x"
proof (cases "x \<in> keys u")
  case True
  assume "uf_inv u"
  from rep_root[OF this True] have "reaches (map_of (parent u)) (rep u x) (rep u x)"
    by (rule reaches.root)
  then show ?thesis by (rule rep_eq)
next
  case False
  then show ?thesis by simp
qed

text \<open>Transfer of the invariant along a map of roots.\<close>

lemma inv_transfer:
  assumes inv: "uf_inv u"
    and d: "distinct (map fst (parent u'))"
    and k: "keys u' = keys u \<union> X"
    and fw: "\<And>y s. reaches (map_of (parent u)) y s \<Longrightarrow> reaches (map_of (parent u')) y (f s)"
    and new: "\<And>x. x \<in> X \<Longrightarrow> x \<notin> keys u \<Longrightarrow> reaches (map_of (parent u')) x (g x)"
  shows "uf_inv u' \<and> (\<forall>y \<in> keys u. rep u' y = f (rep u y))
           \<and> (\<forall>x \<in> X - keys u. rep u' x = g x)"
proof (intro conjI ballI)
  show "uf_inv u'"
    unfolding uf_inv_def
  proof (intro conjI ballI)
    show "distinct (map fst (parent u'))" by (rule d)
    fix x assume "x \<in> keys u'"
    then consider "x \<in> keys u" | "x \<in> X" "x \<notin> keys u" using k by auto
    then show "\<exists>r. reaches (map_of (parent u')) x r"
    proof cases
      case 1
      from fw[OF rep_reaches[OF inv 1]] show ?thesis by blast
    next
      case 2
      from new[OF 2] show ?thesis by blast
    qed
  qed
  show "rep u' y = f (rep u y)" if "y \<in> keys u" for y
    using fw[OF rep_reaches[OF inv that]] by (rule rep_eq)
  show "rep u' x = g x" if "x \<in> X - keys u" for x
    using new[of x] that by (intro rep_eq) simp
qed

lemma same_partition_refl: "uf_inv u \<Longrightarrow> same_partition u {} u"
  by (simp add: same_partition_def)

lemma same_partition_trans:
  "same_partition u X u1 \<Longrightarrow> same_partition u1 Y u2 \<Longrightarrow> same_partition u (X \<union> Y) u2"
  by (auto simp: same_partition_def)

lemma same_partition_known:
  "same_partition u X u' \<Longrightarrow> X \<subseteq> keys u \<Longrightarrow> same_partition u {} u'"
  by (auto simp: same_partition_def)

lemma keys_update: "keys (u\<lparr>parent := AList.update x y (parent u)\<rparr>) = insert x (keys u)"
  by (simp add: keys_def dom_update)

lemma find_reaches:
  assumes "reaches (map_of (parent u)) x r"
  shows "\<exists>u'. findWithoutLock u x = Some (r, u') \<and> rank u' = rank u
           \<and> map fst (parent u') = map fst (parent u)
           \<and> (\<forall>y s. reaches (map_of (parent u)) y s \<longrightarrow> reaches (map_of (parent u')) y s)"
  using assms
proof (induction rule: reaches.induct)
  case (root x)
  then have "findWithoutLock u x = Some (x, u)"
    by (subst findWithoutLock.simps) simp
  then show ?case by simp
next
  case (step x y r)
  then obtain u1 where u1: "findWithoutLock u y = Some (r, u1)" "rank u1 = rank u"
      "map fst (parent u1) = map fst (parent u)"
      "\<And>z s. reaches (map_of (parent u)) z s \<Longrightarrow> reaches (map_of (parent u1)) z s"
    by blast
  let ?u' = "u1\<lparr>parent := AList.update x r (parent u1)\<rparr>"
  from step.hyps(1,2) u1(1) have f: "findWithoutLock u x = Some (r, ?u')"
    by (subst findWithoutLock.simps) simp
  from step.hyps have xr: "reaches (map_of (parent u)) x r" by (rule reaches.step)
  from step.hyps(1) have "x \<in> set (map fst (parent u1))"
    using u1(3) by (auto dest: map_of_SomeD intro: rev_image_eqI)
  then have k: "map fst (parent ?u') = map fst (parent u)"
    using u1(3) by (simp add: update_keys)
  have "reaches (map_of (parent ?u')) z s" if "reaches (map_of (parent u)) z s" for z s
    using reaches_compress[OF u1(4)[OF xr] u1(4)[OF that]] by (simp add: update_conv')
  with f k u1(2) show ?case by simp
qed

lemma find_known:
  assumes inv: "uf_inv u" and x: "x \<in> keys u"
  shows "\<exists>u'. findWithoutLock u x = Some (rep u x, u') \<and> same_partition u {} u'"
proof -
  from find_reaches[OF rep_reaches[OF inv x]] obtain u' where
    u': "findWithoutLock u x = Some (rep u x, u')" "rank u' = rank u"
      "map fst (parent u') = map fst (parent u)"
      "\<And>y s. reaches (map_of (parent u)) y s \<Longrightarrow> reaches (map_of (parent u')) y s"
    by blast
  have k: "keys u' = keys u \<union> {}" using u'(3) by (simp add: keys_def flip: set_map)
  have d: "distinct (map fst (parent u'))" using inv u'(3) by (simp add: uf_inv_def)
  have new: "reaches (map_of (parent u')) z z" if "z \<in> {}" for z :: string
    using that by simp
  note t = inv_transfer[OF inv d k, where f = "\<lambda>s. s" and g = "\<lambda>s. s", OF u'(4) new]
  have "rep u' y = rep u y" for y
    using t k by (cases "y \<in> keys u") (auto simp: rep_def)
  then have "rep u' = rep u" by (rule ext)
  then show ?thesis using u'(1) t k by (auto simp: same_partition_def)
qed

lemma find_unknown:
  assumes inv: "uf_inv u" and x: "x \<notin> keys u"
  shows "\<exists>u'. findWithoutLock u x = Some (x, u') \<and> same_partition u {x} u'
           \<and> map_of (parent u') x = Some x"
proof -
  let ?u' = "u\<lparr>parent := AList.update x x (parent u), rank := AList.update x 0 (rank u)\<rparr>"
  from x have n: "map_of (parent u) x = None" by (simp add: keys_dom domIff)
  then have f: "findWithoutLock u x = Some (x, ?u')"
    by (subst findWithoutLock.simps) simp
  have k: "keys ?u' = keys u \<union> {x}" by (simp add: keys_def dom_update)
  have d: "distinct (map fst (parent ?u'))"
    using inv by (simp add: uf_inv_def distinct_update)
  have fw: "reaches (map_of (parent ?u')) y s" if "reaches (map_of (parent u)) y s" for y s
    using reaches_fresh[OF _ that, of x] x by (simp add: update_conv' keys_dom)
  have new: "reaches (map_of (parent ?u')) z z" if "z \<in> {x}" for z
    using that by (intro reaches.root) (simp add: update_conv')
  note t = inv_transfer[OF inv d k, where f = "\<lambda>s. s" and g = "\<lambda>s. s", OF fw new]
  have "rep ?u' y = rep u y" for y
  proof (cases "y \<in> keys u")
    case True
    with t show ?thesis by simp
  next
    case False
    show ?thesis
    proof (cases "y = x")
      case True
      with t x show ?thesis by simp
    next
      case False
      with \<open>y \<notin> keys u\<close> k have "y \<notin> keys ?u'" by simp
      with \<open>y \<notin> keys u\<close> show ?thesis by (simp add: rep_def)
    qed
  qed
  then have "rep ?u' = rep u" by (rule ext)
  moreover have "map_of (parent ?u') x = Some x" by (simp add: update_conv')
  ultimately show ?thesis using f t k by (auto simp: same_partition_def)
qed

lemma find_spec:
  assumes "uf_inv u"
  shows "\<exists>u'. findWithoutLock u x = Some (rep u x, u') \<and> same_partition u {x} u'"
proof (cases "x \<in> keys u")
  case True
  from find_known[OF assms True] show ?thesis
    using True by (auto simp: same_partition_def)
next
  case False
  from find_unknown[OF assms False] False show ?thesis by auto
qed

lemma link_roots:
  assumes inv: "uf_inv u"
    and r1: "map_of (parent u) r1 = Some r1" and r2: "map_of (parent u) r2 = Some r2"
    and ne: "r1 \<noteq> r2"
    and p: "parent u' = AList.update r1 r2 (parent u)"
  shows "uf_inv u'" and "keys u' = keys u"
    and "rep u' y = (if rep u y = r1 then r2 else rep u y)"
proof -
  from r1 have in1: "r1 \<in> keys u" by (auto simp: keys_dom)
  have k: "keys u' = keys u \<union> {}" using in1 by (auto simp: keys_def p dom_update)
  have d: "distinct (map fst (parent u'))"
    using inv by (simp add: uf_inv_def p distinct_update)
  have fw: "reaches (map_of (parent u')) z (if s = r1 then r2 else s)"
    if "reaches (map_of (parent u)) z s" for z s
    using reaches_link[OF r1 r2 ne that] by (simp add: p update_conv')
  have new: "reaches (map_of (parent u')) z z" if "z \<in> {}" for z :: string
    using that by simp
  note t = inv_transfer[OF inv d k, where f = "\<lambda>s. if s = r1 then r2 else s" and g = "\<lambda>s. s", OF fw new]
  show "uf_inv u'" using t by simp
  show "keys u' = keys u" using k by simp
  show "rep u' y = (if rep u y = r1 then r2 else rep u y)"
  proof (cases "y \<in> keys u")
    case True
    with t show ?thesis by simp
  next
    case False
    with k in1 show ?thesis by (auto simp: rep_def)
  qed
qed

lemma Union_spec:
  assumes inv: "uf_inv u"
  shows "\<exists>root u'. Union_uf u a b = Some (root, u') \<and> uf_inv u' \<and> keys u' = keys u \<union> {a, b}
           \<and> (root = rep u a \<or> root = rep u b)
           \<and> (\<forall>y. rep u' y = (if rep u y = rep u a \<or> rep u y = rep u b then root else rep u y))"
proof -
  from find_spec[OF inv, of a] obtain u1 where
    u1: "findWithoutLock u a = Some (rep u a, u1)" "same_partition u {a} u1" by blast
  then have inv1: "uf_inv u1" and r1: "rep u1 = rep u" and k1: "keys u1 = keys u \<union> {a}"
    by (simp_all add: same_partition_def)
  from find_spec[OF inv1, of b] obtain u2 where
    u2: "findWithoutLock u1 b = Some (rep u1 b, u2)" "same_partition u1 {b} u2" by blast
  then have inv2: "uf_inv u2" and r2: "rep u2 = rep u" and k2: "keys u2 = keys u \<union> {a, b}"
    using r1 k1 by (auto simp: same_partition_def)
  let ?ra = "rep u a" and ?rb = "rep u b"
  have ra: "map_of (parent u2) ?ra = Some ?ra"
    using rep_root[OF inv2, of a] k2 r2 by simp
  have rb: "map_of (parent u2) ?rb = Some ?rb"
    using rep_root[OF inv2, of b] k2 r2 by simp
  show ?thesis
  proof (cases "?ra = ?rb")
    case True
    with u1(1) u2(1) r1 have "Union_uf u a b = Some (?ra, u2)"
      by (simp add: Union_uf_def)
    with inv2 k2 r2 True show ?thesis by auto
  next
    case False
    consider (lt) "rank_of u2 ?ra < rank_of u2 ?rb"
      | (gt) "rank_of u2 ?ra > rank_of u2 ?rb"
      | (eq) "rank_of u2 ?ra = rank_of u2 ?rb" by linarith
    then show ?thesis
    proof cases
      case lt
      let ?u' = "u2\<lparr>parent := AList.update ?ra ?rb (parent u2)\<rparr>"
      from lt False u1(1) u2(1) r1 have "Union_uf u a b = Some (?rb, ?u')"
        by (simp add: Union_uf_def)
      moreover note l = link_roots[OF inv2 ra rb False, of ?u']
      have "uf_inv ?u'" by (rule l(1)) simp
      moreover have "keys ?u' = keys u \<union> {a, b}" using l(2) k2 by simp
      moreover have "rep ?u' y = (if rep u y = ?ra \<or> rep u y = ?rb then ?rb else rep u y)" for y
        using l(3)[of y] r2 by simp
      ultimately show ?thesis by blast
    next
      case gt
      let ?u' = "u2\<lparr>parent := AList.update ?rb ?ra (parent u2)\<rparr>"
      from gt False u1(1) u2(1) r1 have "Union_uf u a b = Some (?ra, ?u')"
        by (simp add: Union_uf_def)
      moreover note l = link_roots[OF inv2 rb ra False[symmetric], of ?u']
      have "uf_inv ?u'" by (rule l(1)) simp
      moreover have "keys ?u' = keys u \<union> {a, b}" using l(2) k2 by simp
      moreover have "rep ?u' y = (if rep u y = ?ra \<or> rep u y = ?rb then ?ra else rep u y)" for y
        using l(3)[of y] r2 by simp
      ultimately show ?thesis by blast
    next
      case eq
      let ?u' = "u2\<lparr>parent := AList.update ?rb ?ra (parent u2),
                     rank := AList.update ?ra (rank_of u2 ?ra + 1) (rank u2)\<rparr>"
      from eq False u1(1) u2(1) r1 have "Union_uf u a b = Some (?ra, ?u')"
        by (simp add: Union_uf_def)
      moreover note l = link_roots[OF inv2 rb ra False[symmetric], of ?u']
      have "uf_inv ?u'" by (rule l(1)) simp
      moreover have "keys ?u' = keys u \<union> {a, b}" using l(2) k2 by simp
      moreover have "rep ?u' y = (if rep u y = ?ra \<or> rep u y = ?rb then ?ra else rep u y)" for y
        using l(3)[of y] r2 by simp
      ultimately show ?thesis by blast
    qed
  qed
qed

lemma same_partition_inv: "same_partition u X u' \<Longrightarrow> uf_inv u'"
  by (simp add: same_partition_def)

lemma same_partition_rep: "same_partition u X u' \<Longrightarrow> rep u' y = rep u y"
  by (simp add: same_partition_def)

lemma same_partition_keys: "same_partition u X u' \<Longrightarrow> keys u' = keys u \<union> X"
  by (simp add: same_partition_def)

lemma members_loop_spec:
  assumes "uf_inv u"
  shows "\<exists>u'. members_loop ns root u = Some (filter (\<lambda>n. rep u n = root) ns, u')
           \<and> same_partition u (set ns) u'"
  using assms
proof (induction ns arbitrary: u)
  case Nil
  then show ?case by (simp add: same_partition_refl)
next
  case (Cons n ns)
  from find_spec[OF Cons.prems, of n] obtain u1 where
    u1: "findWithoutLock u n = Some (rep u n, u1)" "same_partition u {n} u1" by blast
  from Cons.IH[OF same_partition_inv[OF u1(2)]] obtain u2 where
    u2: "members_loop ns root u1 = Some (filter (\<lambda>n. rep u1 n = root) ns, u2)"
      "same_partition u1 (set ns) u2" by blast
  have "filter (\<lambda>n. rep u1 n = root) ns = filter (\<lambda>n. rep u n = root) ns"
    using u1(2) by (simp add: same_partition_def)
  with u1(1) u2(1) have "members_loop (n # ns) root u =
      Some (filter (\<lambda>n. rep u n = root) (n # ns), u2)" by simp
  moreover from same_partition_trans[OF u1(2) u2(2)] have "same_partition u (set (n # ns)) u2"
    by simp
  ultimately show ?case by blast
qed

lemma components_loop_spec:
  assumes "uf_inv u"
  shows "\<exists>cs u'. components_loop ns u comps = Some (cs, u') \<and> same_partition u (set ns) u'
           \<and> fst ` set cs \<subseteq> fst ` set comps \<union> rep u ` set ns"
  using assms
proof (induction ns arbitrary: u comps)
  case Nil
  then show ?case by (simp add: same_partition_refl)
next
  case (Cons n ns)
  from find_spec[OF Cons.prems, of n] obtain u1 where
    u1: "findWithoutLock u n = Some (rep u n, u1)" "same_partition u {n} u1" by blast
  let ?comps = "AList.update (rep u n)
              ((case map_of comps (rep u n) of None \<Rightarrow> [] | Some ms \<Rightarrow> ms) @ [n]) comps"
  from Cons.IH[OF same_partition_inv[OF u1(2)], of ?comps] obtain cs u2 where
    u2: "components_loop ns u1 ?comps = Some (cs, u2)"
      "same_partition u1 (set ns) u2"
      "fst ` set cs \<subseteq> fst ` set ?comps \<union> rep u1 ` set ns" by blast
  from u1(1) u2(1) have "components_loop (n # ns) u comps = Some (cs, u2)" by simp
  moreover from same_partition_trans[OF u1(2) u2(2)] have "same_partition u (set (n # ns)) u2"
    by simp
  moreover have "fst ` set cs \<subseteq> fst ` set comps \<union> rep u ` set (n # ns)"
    using u2(3) same_partition_rep[OF u1(2)] by (auto simp: dom_update)
  ultimately show ?case by blast
qed

lemma keys_list: "set (map fst (parent u)) = keys u"
  by (simp add: keys_def)

lemma keys_img: "fst ` set (parent u) = keys u"
  by (simp add: keys_def)

lemma range_keys_set [simp]: "set (range_keys ord l ks) = set ks"
  by (simp add: range_keys_def)

lemma range_map_set [simp]: "set (range_map ord l m) = set m"
  by (simp add: range_map_def)

lemma GetAllComponents_spec:
  assumes "uf_inv u"
  shows "\<exists>cs u'. GetAllComponents ord u = Some (cs, u') \<and> same_partition u {} u'
           \<and> fst ` set cs \<subseteq> keys u"
proof -
  from components_loop_spec[OF assms, of "range_keys ord 134 (map fst (parent u))" "[]"]
  obtain cs u' where
    c: "components_loop (range_keys ord 134 (map fst (parent u))) u [] = Some (cs, u')"
      "same_partition u (set (map fst (parent u))) u'"
      "fst ` set cs \<subseteq> fst ` set ([] :: (string \<times> string list) list)
          \<union> rep u ` set (map fst (parent u))"
    unfolding range_keys_set by (elim exE conjE)
  have "fst ` set cs \<subseteq> keys u"
  proof
    fix r assume "r \<in> fst ` set cs"
    with c(3) have "r \<in> rep u ` keys u" unfolding keys_list by auto
    then obtain n where "n \<in> keys u" "r = rep u n" by (rule imageE)
    with rep_in_keys[OF assms] show "r \<in> keys u" by simp
  qed
  moreover from c(2) have "same_partition u {} u'"
    unfolding keys_list by (rule same_partition_known) simp
  ultimately show ?thesis
    using c(1) unfolding GetAllComponents_def by blast
qed

lemma GetComponentMembers_spec:
  assumes "uf_inv u"
  shows "\<exists>ms u'. GetComponentMembers u x = Some (ms, u') \<and> same_partition u {x} u'
           \<and> set ms = {y \<in> keys u \<union> {x}. rep u y = rep u x} \<and> distinct ms"
proof -
  from find_spec[OF assms, of x] obtain u1 where
    u1: "findWithoutLock u x = Some (rep u x, u1)" "same_partition u {x} u1" by blast
  let ?ks = "map fst (parent u1)"
  from members_loop_spec[OF same_partition_inv[OF u1(2)], of ?ks "rep u x"] obtain u2 where
    u2: "members_loop ?ks (rep u x) u1 = Some (filter (\<lambda>n. rep u1 n = rep u x) ?ks, u2)"
      "same_partition u1 (set ?ks) u2" by blast
  let ?ms = "filter (\<lambda>n. rep u1 n = rep u x) ?ks"
  from u1(1) u2(1) have "GetComponentMembers u x = Some (?ms, u2)"
    by (simp add: GetComponentMembers_def)
  moreover have "same_partition u {x} u2"
  proof -
    have "set ?ks \<subseteq> keys u1" by (simp add: keys_def)
    from same_partition_trans[OF u1(2) same_partition_known[OF u2(2) this]]
    show ?thesis by simp
  qed
  moreover have "set ?ms = {y \<in> keys u \<union> {x}. rep u y = rep u x}"
  proof -
    from u1(2) have "rep u1 = rep u" "keys u1 = keys u \<union> {x}"
      by (simp_all add: same_partition_def)
    then show ?thesis by (simp add: keys_img)
  qed
  moreover have "distinct ?ms"
    using same_partition_inv[OF u1(2)] by (simp add: uf_inv_def)
  ultimately show ?thesis by blast
qed

lemma ComponentSize_spec:
  assumes "uf_inv u"
  shows "\<exists>u'. ComponentSize u x = Some (card {y \<in> keys u \<union> {x}. rep u y = rep u x}, u')
           \<and> same_partition u {x} u'"
proof -
  from find_spec[OF assms, of x] obtain u1 where
    u1: "findWithoutLock u x = Some (rep u x, u1)" "same_partition u {x} u1" by blast
  let ?ks = "map fst (parent u1)"
  from members_loop_spec[OF same_partition_inv[OF u1(2)], of ?ks "rep u x"] obtain u2 where
    u2: "members_loop ?ks (rep u x) u1 = Some (filter (\<lambda>n. rep u1 n = rep u x) ?ks, u2)"
      "same_partition u1 (set ?ks) u2" by blast
  let ?ms = "filter (\<lambda>n. rep u1 n = rep u x) ?ks"
  from u1(1) u2(1) have "ComponentSize u x = Some (length ?ms, u2)"
    by (simp add: ComponentSize_def Find_def)
  moreover have "same_partition u {x} u2"
  proof -
    have "set ?ks \<subseteq> keys u1" by (simp add: keys_def)
    from same_partition_trans[OF u1(2) same_partition_known[OF u2(2) this]]
    show ?thesis by simp
  qed
  moreover have "set ?ms = {y \<in> keys u \<union> {x}. rep u y = rep u x}"
  proof -
    from u1(2) have "rep u1 = rep u" "keys u1 = keys u \<union> {x}"
      by (simp_all add: same_partition_def)
    then show ?thesis by (simp add: keys_img)
  qed
  moreover have "distinct ?ms"
    using same_partition_inv[OF u1(2)] by (simp add: uf_inv_def)
  ultimately have "ComponentSize u x = Some (card {y \<in> keys u \<union> {x}. rep u y = rep u x}, u2)"
    and "same_partition u {x} u2"
    using distinct_card[of ?ms] by simp_all
  then show ?thesis by blast
qed

lemma Connected_spec:
  assumes "uf_inv u"
  shows "\<exists>u'. Connected u a b = Some (rep u a = rep u b, u') \<and> same_partition u {a, b} u'"
proof -
  from find_spec[OF assms, of a] obtain u1 where
    u1: "findWithoutLock u a = Some (rep u a, u1)" "same_partition u {a} u1" by blast
  from find_spec[OF same_partition_inv[OF u1(2)], of b] obtain u2 where
    u2: "findWithoutLock u1 b = Some (rep u1 b, u2)" "same_partition u1 {b} u2" by blast
  from u1 u2 have "Connected u a b = Some (rep u a = rep u b, u2)"
    by (simp add: Connected_def Find_def same_partition_def)
  moreover from same_partition_trans[OF u1(2) u2(2)] have "same_partition u {a, b} u2"
    by (simp add: insert_commute)
  ultimately show ?thesis by blast
qed

lemma union_all_spec:
  assumes "uf_inv u" and "r0 \<in> keys u" and "rep u r0 = r0"
  shows "\<exists>root u'. union_all u r0 xs = Some (root, u') \<and> uf_inv u'
           \<and> keys u' = keys u \<union> set xs
           \<and> (\<exists>z \<in> {r0} \<union> set xs. root = rep u z)
           \<and> (\<forall>y. rep u' y = (if \<exists>z \<in> {r0} \<union> set xs. rep u y = rep u z then root else rep u y))"
  using assms
proof (induction xs arbitrary: u r0)
  case Nil
  have "rep u y = (if \<exists>z \<in> {r0} \<union> set []. rep u y = rep u z then r0 else rep u y)" for y
    using Nil.prems(3) by simp
  moreover have "\<exists>z \<in> {r0} \<union> set []. r0 = rep u z" using Nil.prems(3) by simp
  moreover have "union_all u r0 [] = Some (r0, u)" by simp
  moreover have "keys u = keys u \<union> set []" by simp
  ultimately show ?case using Nil.prems(1) by blast
next
  case (Cons x xs)
  from Union_spec[OF Cons.prems(1), of r0 x] obtain root1 u1 where
    u1: "Union_uf u r0 x = Some (root1, u1)" "uf_inv u1" "keys u1 = keys u \<union> {r0, x}"
      "root1 = rep u r0 \<or> root1 = rep u x"
      "\<And>y. rep u1 y = (if rep u y = rep u r0 \<or> rep u y = rep u x then root1 else rep u y)"
    by blast
  have idem: "rep u root1 = root1"
    using u1(4) rep_idem[OF Cons.prems(1), of r0] rep_idem[OF Cons.prems(1), of x]
    by (elim disjE) simp_all
  have r1: "rep u1 root1 = root1"
  proof -
    have "rep u root1 = rep u r0 \<or> rep u root1 = rep u x"
      unfolding idem by (rule u1(4))
    with u1(5)[of root1] show ?thesis by (simp only: if_True)
  qed
  have k1: "root1 \<in> keys u1"
  proof (cases "root1 = rep u r0")
    case True
    with Cons.prems(2,3) u1(3) show ?thesis by simp
  next
    case False
    with u1(4) have e: "root1 = rep u x" by simp
    show ?thesis
    proof (cases "x \<in> keys u")
      case True
      from rep_in_keys[OF Cons.prems(1) this] e u1(3) show ?thesis by simp
    next
      case False
      with e u1(3) show ?thesis by simp
    qed
  qed
  from Cons.IH[OF u1(2) k1 r1] obtain root u' where
    u': "union_all u1 root1 xs = Some (root, u')" "uf_inv u'" "keys u' = keys u1 \<union> set xs"
      "\<exists>z \<in> {root1} \<union> set xs. root = rep u1 z"
      "\<And>y. rep u' y = (if \<exists>z \<in> {root1} \<union> set xs. rep u1 y = rep u1 z then root else rep u1 y)"
    by blast
  have run: "union_all u r0 (x # xs) = Some (root, u')" using u1(1) u'(1) by simp
  have keys: "keys u' = keys u \<union> set (x # xs)"
    using u'(3) u1(3) Cons.prems(2) by auto
  have root: "\<exists>z \<in> {r0} \<union> set (x # xs). root = rep u z"
  proof -
    from u'(4) obtain z where z: "z \<in> {root1} \<union> set xs" "root = rep u1 z" by blast
    show ?thesis
    proof (cases "rep u1 z = root1")
      case True
      with z(2) u1(4) show ?thesis by auto
    next
      case False
      with r1 z(1) have "z \<in> set xs" by auto
      moreover from False u1(5)[of z] have "rep u1 z = rep u z" by (auto split: if_splits)
      ultimately show ?thesis using z(2) by auto
    qed
  qed
  have reps: "rep u' y = (if \<exists>z \<in> {r0} \<union> set (x # xs). rep u y = rep u z then root else rep u y)"
    for y
  proof (cases "rep u y = rep u r0 \<or> rep u y = rep u x")
    case True
    with u1(5)[of y] have "rep u1 y = root1" by simp
    moreover have "\<exists>z \<in> {root1} \<union> set xs. rep u1 y = rep u1 z"
      using \<open>rep u1 y = root1\<close> r1 by (intro bexI[of _ root1]) simp_all
    ultimately have "rep u' y = root" using u'(5)[of y] by (simp only: if_True)
    moreover have "\<exists>z \<in> {r0} \<union> set (x # xs). rep u y = rep u z"
      using True by (elim disjE) (rule bexI[of _ r0], simp, simp, rule bexI[of _ x], simp, simp)
    ultimately show ?thesis by (simp only: if_True)
  next
    case False
    with u1(5)[of y] have y1: "rep u1 y = rep u y" by simp
    from False u1(4) have ne: "rep u y \<noteq> root1" by auto
    have "(\<exists>z \<in> {root1} \<union> set xs. rep u1 y = rep u1 z) \<longleftrightarrow> (\<exists>z \<in> set xs. rep u y = rep u z)"
    proof
      assume "\<exists>z \<in> {root1} \<union> set xs. rep u1 y = rep u1 z"
      then obtain z where z: "z \<in> {root1} \<union> set xs" "rep u1 y = rep u1 z" by blast
      with y1 ne r1 have zx: "z \<in> set xs" and "rep u1 z \<noteq> root1" by auto
      with u1(5)[of z] have "rep u1 z = rep u z" by (auto split: if_splits)
      with z(2) y1 zx show "\<exists>z \<in> set xs. rep u y = rep u z" by auto
    next
      assume "\<exists>z \<in> set xs. rep u y = rep u z"
      then obtain z where z: "z \<in> set xs" "rep u y = rep u z" by blast
      with False u1(5)[of z] have "rep u1 z = rep u z" by simp
      with z y1 have "z \<in> {root1} \<union> set xs" "rep u1 y = rep u1 z" by simp_all
      then show "\<exists>z \<in> {root1} \<union> set xs. rep u1 y = rep u1 z" by (rule bexI[rotated])
    qed
    then have iff: "(\<exists>z \<in> {root1} \<union> set xs. rep u1 y = rep u1 z) = (\<exists>z \<in> set xs. rep u y = rep u z)"
      by simp
    have iff2: "(\<exists>z \<in> {r0} \<union> set (x # xs). rep u y = rep u z) = (\<exists>z \<in> set xs. rep u y = rep u z)"
      using False by (simp add: bex_Un)
    from u'(5)[of y] have "rep u' y = (if \<exists>z \<in> set xs. rep u y = rep u z then root else rep u1 y)"
      by (simp only: iff)
    then show ?thesis
      unfolding iff2 y1 .
  qed
  show ?case
  proof (intro exI conjI allI)
    show "union_all u r0 (x # xs) = Some (root, u')" by (rule run)
    show "uf_inv u'" by (rule u'(2))
    show "keys u' = keys u \<union> set (x # xs)" by (rule keys)
    show "\<exists>z \<in> {r0} \<union> set (x # xs). root = rep u z" by (rule root)
    show "rep u' y = (if \<exists>z \<in> {r0} \<union> set (x # xs). rep u y = rep u z then root else rep u y)"
      for y by (rule reps)
  qed
qed

section \<open>The canonical-root engine: what its methods do\<close>

lemma hd_sort_Min:
  fixes xs :: "'a::linorder list"
  assumes "xs \<noteq> []"
  shows "hd (sort xs) = Min (set xs)"
proof -
  from assms have ne: "sort xs \<noteq> []" by (metis length_0_conv length_sort)
  then obtain y ys where s: "sort xs = y # ys" by (cases "sort xs") auto
  have "sorted (sort xs)" by simp
  then have "sorted (y # ys)" using s by simp
  then have "\<forall>z \<in> set (y # ys). y \<le> z" by auto
  moreover have "set (sort xs) = set xs" by simp
  then have "set (y # ys) = set xs" using s by simp
  ultimately have "Min (set xs) = y"
    by (intro Min_eqI) auto
  with s show ?thesis by simp
qed

lemma select_by_priority_set:
  "select_by_priority ps xs =
     (case filter (\<lambda>p. \<exists>x \<in> set xs. HasPrefix x p) ps of
        [] \<Rightarrow> None
      | p # _ \<Rightarrow> Some (Min {x \<in> set xs. HasPrefix x p}))"
proof (induction ps)
  case Nil
  then show ?case by simp
next
  case (Cons p ps)
  show ?case
  proof (cases "filter (\<lambda>x. HasPrefix x p) xs")
    case Nil
    then have "\<not> (\<exists>x \<in> set xs. HasPrefix x p)"
      by (auto simp: filter_empty_conv)
    with Nil Cons.IH show ?thesis by simp
  next
    case (Cons c cs)
    then have ex: "\<exists>x \<in> set xs. HasPrefix x p"
      by (metis filter_empty_conv list.distinct(1))
    have "hd (sort (c # cs)) = Min (set (c # cs))" by (rule hd_sort_Min) simp
    also have "set (c # cs) = {x \<in> set xs. HasPrefix x p}"
      using Cons[symmetric] by simp
    finally show ?thesis using Cons ex by simp
  qed
qed

lemma canonical_set:
  assumes "xs \<noteq> []"
  shows "canonical xs =
     (case filter (\<lambda>p. \<exists>x \<in> set xs. HasPrefix x p) priorities of
        [] \<Rightarrow> Min (set xs)
      | p # _ \<Rightarrow> Min {x \<in> set xs. HasPrefix x p})"
  using hd_sort_Min[OF assms]
  by (simp add: canonical_def select_by_priority_set split: list.splits)

lemma canonical_cong:
  assumes "set xs = set ys" and "xs \<noteq> []"
  shows "canonical xs = canonical ys"
proof -
  from assms have "ys \<noteq> []" by auto
  from canonical_set[OF assms(2)] canonical_set[OF this] show ?thesis
    unfolding assms(1) by simp
qed

lemma selectCanonical_spec:
  assumes "uf_inv u"
  shows "\<exists>ms u'. selectCanonical u x = Some (canonical ms, u') \<and> same_partition u {x} u'
           \<and> set ms = {y \<in> keys u \<union> {x}. rep u y = rep u x}"
proof -
  from GetComponentMembers_spec[OF assms, of x] obtain ms u' where
    m: "GetComponentMembers u x = Some (ms, u')" "same_partition u {x} u'"
      "set ms = {y \<in> keys u \<union> {x}. rep u y = rep u x}" by blast
  from m(3) have "x \<in> set ms" by simp
  then have "ms \<noteq> []" by auto
  with m(1) have "selectCanonical u x = Some (canonical ms, u')"
    by (simp add: selectCanonical_def canonical_def split: option.splits)
  with m(2,3) show ?thesis by blast
qed

lemma CSG_GetSessionKey_empty:
  "normalizeIdentifiers ids = [] \<Longrightarrow> CSG_GetSessionKey s ids = Some (''sess_anonymous'', s)"
  by (simp add: CSG_GetSessionKey_def)

lemma CSG_GetSessionKey_spec:
  assumes inv: "csg_inv s" and n: "normalizeIdentifiers ids = first # others"
  shows "\<exists>ms root s'. CSG_GetSessionKey s ids = Some (generateSessionKey (canonical ms), s')
           \<and> csg_inv s' \<and> keys (uf s') = keys (uf s) \<union> set (first # others)
           \<and> set ms = joined (uf s) (set (first # others))
           \<and> (\<exists>z \<in> set (first # others). root = rep (uf s) z)
           \<and> (\<forall>y. rep (uf s') y =
                 (if \<exists>z \<in> set (first # others). rep (uf s) y = rep (uf s) z then root
                  else rep (uf s) y))"
proof -
  let ?u = "uf s" and ?A = "set (first # others)"
  from inv have i: "uf_inv ?u" by (simp add: csg_inv_def)
  from find_spec[OF i, of first] obtain u0 where
    u0: "findWithoutLock ?u first = Some (rep ?u first, u0)" "same_partition ?u {first} u0" by blast
  then have i0: "uf_inv u0" and k0: "keys u0 = keys ?u \<union> {first}" and r0: "rep u0 = rep ?u"
    by (simp_all add: same_partition_def)
  have rk: "rep ?u first \<in> keys u0"
    using rep_in_keys[OF i, of first] k0 by (cases "first \<in> keys ?u") auto
  have rr: "rep u0 (rep ?u first) = rep ?u first"
    unfolding r0 by (rule rep_idem[OF i])
  from union_all_spec[OF i0 rk rr, of others] obtain root u1 where
    u1: "union_all u0 (rep ?u first) others = Some (root, u1)" "uf_inv u1"
      "keys u1 = keys u0 \<union> set others"
      "\<exists>z \<in> {rep ?u first} \<union> set others. root = rep u0 z"
      "\<And>y. rep u1 y = (if \<exists>z \<in> {rep ?u first} \<union> set others. rep u0 y = rep u0 z
                          then root else rep u0 y)"
    by blast
  have cond: "(\<exists>z \<in> {rep ?u first} \<union> set others. rep ?u y = rep ?u z)
                = (\<exists>z \<in> ?A. rep ?u y = rep ?u z)" for y
    using rep_idem[OF i, of first] by (simp add: bex_Un)
  have rep1: "rep u1 y = (if \<exists>z \<in> ?A. rep ?u y = rep ?u z then root else rep ?u y)" for y
    using u1(5)[of y, unfolded r0] unfolding cond .
  have k1: "keys u1 = keys ?u \<union> ?A" using u1(3) k0 by auto
  have root_fix: "rep ?u root = root"
    using u1(4) unfolding r0 using rep_idem[OF i] by auto
  have root_in: "\<exists>z \<in> ?A. rep ?u root = rep ?u z"
    using u1(4) unfolding r0 root_fix using rep_idem[OF i, of first] by (auto simp: bex_Un)
  have rroot: "rep u1 root = root"
    using rep1[of root] root_in by (simp only: if_True)
  have root_key: "root \<in> keys u1"
  proof -
    from u1(4) obtain z where z: "z \<in> {rep ?u first} \<union> set others" "root = rep ?u z"
      unfolding r0 by blast
    show ?thesis
    proof (cases "z \<in> keys ?u")
      case True
      from rep_in_keys[OF i this] z(2) k1 show ?thesis by simp
    next
      case False
      with z rk k0 k1 show ?thesis by (auto simp: rep_def)
    qed
  qed
  from selectCanonical_spec[OF u1(2), of root] obtain ms u2 where
    u2: "selectCanonical u1 root = Some (canonical ms, u2)" "same_partition u1 {root} u2"
      "set ms = {y \<in> keys u1 \<union> {root}. rep u1 y = rep u1 root}" by blast
  have ms: "set ms = joined ?u ?A"
  proof -
    have e1: "keys u1 \<union> {root} = keys ?u \<union> ?A"
      using root_key unfolding k1 by blast
    have "{y \<in> keys u1 \<union> {root}. rep u1 y = rep u1 root}
            = {y \<in> keys ?u \<union> ?A. rep u1 y = root}"
      unfolding e1 rroot ..
    also have "\<dots> = {y \<in> keys ?u \<union> ?A. \<exists>z \<in> ?A. rep ?u y = rep ?u z}"
    proof (intro Collect_cong conj_cong refl)
      fix y
      show "rep u1 y = root \<longleftrightarrow> (\<exists>z \<in> ?A. rep ?u y = rep ?u z)"
      proof (cases "\<exists>z \<in> ?A. rep ?u y = rep ?u z")
        case True
        with rep1[of y] have "rep u1 y = root" by (simp only: if_True)
        with True show ?thesis by blast
      next
        case False
        with rep1[of y] have "rep u1 y = rep ?u y" by (simp only: if_False)
        moreover have "rep ?u y \<noteq> root"
        proof
          assume "rep ?u y = root"
          with root_in False show False unfolding root_fix by metis
        qed
        ultimately have "rep u1 y \<noteq> root" by simp
        with False show ?thesis by blast
      qed
    qed
    finally show ?thesis using u2(3) by (simp add: joined_def)
  qed
  let ?key = "generateSessionKey (canonical ms)"
  have "\<exists>c2. CSG_GetSessionKey s ids = Some (?key, \<lparr>uf = u2, cache = c2\<rparr>)"
    using n u0(1) u1(1) u2(1)
    by (cases "lru_Get (cache s) first") (simp add: CSG_GetSessionKey_def Find_def)
  then obtain c2 where c2: "CSG_GetSessionKey s ids = Some (?key, \<lparr>uf = u2, cache = c2\<rparr>)"
    by blast
  have "csg_inv \<lparr>uf = u2, cache = c2\<rparr>"
    using u2(2) by (simp add: csg_inv_def same_partition_def)
  moreover have "keys (uf \<lparr>uf = u2, cache = c2\<rparr>) = keys ?u \<union> ?A"
  proof -
    from u2(2) have "keys u2 = keys u1 \<union> {root}" by (simp add: same_partition_def)
    with root_key show ?thesis unfolding k1 by auto
  qed
  moreover have "rep (uf \<lparr>uf = u2, cache = c2\<rparr>) y
      = (if \<exists>z \<in> ?A. rep ?u y = rep ?u z then root else rep ?u y)" for y
    using u2(2) rep1[of y] by (simp add: same_partition_def)
  moreover have "\<exists>z \<in> ?A. root = rep ?u z" using root_in unfolding root_fix .
  ultimately show ?thesis using c2 ms by blast
qed

lemma sessions_loop_spec:
  assumes "uf_inv u" and "fst ` set cs \<subseteq> keys u"
  shows "\<exists>ss u'. sessions_loop cs u acc = Some (ss, u') \<and> same_partition u {} u'"
  using assms
proof (induction cs arbitrary: u acc)
  case Nil
  then show ?case by (simp add: same_partition_refl)
next
  case (Cons c cs)
  obtain root members where c: "c = (root, members)" by (cases c)
  with Cons.prems(2) have rk: "root \<in> keys u" by simp
  from selectCanonical_spec[OF Cons.prems(1), of root] obtain ms u1 where
    u1: "selectCanonical u root = Some (canonical ms, u1)" "same_partition u {root} u1" by blast
  from u1(2) rk have sp: "same_partition u {} u1" by (intro same_partition_known) auto
  then have k1: "keys u1 = keys u" by (simp add: same_partition_def)
  with Cons.prems(2) have "fst ` set cs \<subseteq> keys u1" by simp
  from Cons.IH[OF same_partition_inv[OF sp] this,
      of "AList.update (generateSessionKey (canonical ms)) members acc"]
  obtain ss u2 where
    u2: "sessions_loop cs u1 (AList.update (generateSessionKey (canonical ms)) members acc)
           = Some (ss, u2)" "same_partition u1 {} u2" by blast
  from u1(1) u2(1) c have "sessions_loop (c # cs) u acc = Some (ss, u2)" by simp
  moreover from same_partition_trans[OF sp u2(2)] have "same_partition u {} u2" by simp
  ultimately show ?case by blast
qed

lemma CSG_LinkIdentifiers_spec:
  assumes inv: "csg_inv s" and ne: "a \<noteq> []" "b \<noteq> []"
  shows "\<exists>root s'. CSG_LinkIdentifiers s a b = Some s' \<and> csg_inv s'
           \<and> keys (uf s') = keys (uf s) \<union> {a, b}
           \<and> (root = rep (uf s) a \<or> root = rep (uf s) b)
           \<and> (\<forall>y. rep (uf s') y =
                 (if rep (uf s) y = rep (uf s) a \<or> rep (uf s) y = rep (uf s) b then root
                  else rep (uf s) y))"
proof -
  let ?u = "uf s"
  from inv have i: "uf_inv ?u" by (simp add: csg_inv_def)
  from Connected_spec[OF i, of a b] obtain u1 where
    u1: "Connected ?u a b = Some (rep ?u a = rep ?u b, u1)" "same_partition ?u {a, b} u1" by blast
  then have i1: "uf_inv u1" and k1: "keys u1 = keys ?u \<union> {a, b}" and r1: "rep u1 = rep ?u"
    by (simp_all add: same_partition_def)
  show ?thesis
  proof (cases "rep ?u a = rep ?u b")
    case True
    with u1(1) ne have "CSG_LinkIdentifiers s a b = Some (s\<lparr>uf := u1\<rparr>)"
      by (simp add: CSG_LinkIdentifiers_def)
    moreover have "csg_inv (s\<lparr>uf := u1\<rparr>)" using i1 by (simp add: csg_inv_def)
    moreover have "keys (uf (s\<lparr>uf := u1\<rparr>)) = keys ?u \<union> {a, b}" using k1 by simp
    moreover have "rep (uf (s\<lparr>uf := u1\<rparr>)) y =
        (if rep ?u y = rep ?u a \<or> rep ?u y = rep ?u b then rep ?u a else rep ?u y)" for y
      using True by (simp add: r1)
    ultimately show ?thesis by blast
  next
    case False
    from Union_spec[OF i1, of a b] obtain root u2 where
      u2: "Union_uf u1 a b = Some (root, u2)" "uf_inv u2" "keys u2 = keys u1 \<union> {a, b}"
        "\<And>y. rep u2 y = (if rep u1 y = rep u1 a \<or> rep u1 y = rep u1 b then root else rep u1 y)"
        "root = rep u1 a \<or> root = rep u1 b"
      by blast
    let ?s' = "\<lparr>uf = u2, cache = lru_Remove (lru_Remove (cache s) a) b\<rparr>"
    from False u1(1) u2(1) ne have "CSG_LinkIdentifiers s a b = Some ?s'"
      by (simp add: CSG_LinkIdentifiers_def)
    moreover have "csg_inv ?s'" using u2(2) by (simp add: csg_inv_def)
    moreover have "keys (uf ?s') = keys ?u \<union> {a, b}" using u2(3) k1 by auto
    moreover have "rep (uf ?s') y =
        (if rep ?u y = rep ?u a \<or> rep ?u y = rep ?u b then root else rep ?u y)" for y
      using u2(4)[of y] by (simp add: r1)
    moreover have "root = rep ?u a \<or> root = rep ?u b" using u2(5) by (simp add: r1)
    ultimately show ?thesis by blast
  qed
qed

lemma CSG_AreLinked_spec:
  assumes inv: "csg_inv s" and ne: "a \<noteq> []" "b \<noteq> []"
  shows "\<exists>s'. CSG_AreLinked s a b = Some (rep (uf s) a = rep (uf s) b, s')
           \<and> cache s' = cache s \<and> same_partition (uf s) {a, b} (uf s')"
proof -
  from inv have i: "uf_inv (uf s)" by (simp add: csg_inv_def)
  from Connected_spec[OF i, of a b] obtain u1 where
    u1: "Connected (uf s) a b = Some (rep (uf s) a = rep (uf s) b, u1)"
      "same_partition (uf s) {a, b} u1" by blast
  with ne have "CSG_AreLinked s a b = Some (rep (uf s) a = rep (uf s) b, s\<lparr>uf := u1\<rparr>)"
    by (simp add: CSG_AreLinked_def)
  with u1(2) show ?thesis by simp
qed

lemma CSG_GetSessionSize_spec:
  assumes inv: "csg_inv s" and ne: "a \<noteq> []"
  shows "\<exists>s'. CSG_GetSessionSize s a
             = Some (card {y \<in> keys (uf s) \<union> {a}. rep (uf s) y = rep (uf s) a}, s')
           \<and> cache s' = cache s \<and> same_partition (uf s) {a} (uf s')"
proof -
  from inv have i: "uf_inv (uf s)" by (simp add: csg_inv_def)
  from ComponentSize_spec[OF i, of a] obtain u1 where
    u1: "ComponentSize (uf s) a
           = Some (card {y \<in> keys (uf s) \<union> {a}. rep (uf s) y = rep (uf s) a}, u1)"
      "same_partition (uf s) {a} u1" by blast
  with ne have "CSG_GetSessionSize s a
      = Some (card {y \<in> keys (uf s) \<union> {a}. rep (uf s) y = rep (uf s) a}, s\<lparr>uf := u1\<rparr>)"
    by (simp add: CSG_GetSessionSize_def)
  with u1(2) show ?thesis by simp
qed

lemma CSG_GetAllSessions_spec:
  assumes inv: "csg_inv s"
  shows "\<exists>m s'. CSG_GetAllSessions ord s = Some (m, s') \<and> cache s' = cache s
           \<and> same_partition (uf s) {} (uf s')"
proof -
  from inv have i: "uf_inv (uf s)" by (simp add: csg_inv_def)
  from GetAllComponents_spec[OF i] obtain cs u1 where
    u1: "GetAllComponents ord (uf s) = Some (cs, u1)" "same_partition (uf s) {} u1"
      "fst ` set cs \<subseteq> keys (uf s)" by blast
  then have "fst ` set (range_map ord 218 cs) \<subseteq> keys u1" by (simp add: same_partition_def)
  from sessions_loop_spec[OF same_partition_inv[OF u1(2)] this, of "[]"] obtain m u2 where
    u2: "sessions_loop (range_map ord 218 cs) u1 [] = Some (m, u2)" "same_partition u1 {} u2"
    by blast
  from u1(1) u2(1) have "CSG_GetAllSessions ord s = Some (m, s\<lparr>uf := u2\<rparr>)"
    by (simp add: CSG_GetAllSessions_def)
  moreover from same_partition_trans[OF u1(2) u2(2)] have "same_partition (uf s) {} u2" by simp
  ultimately show ?thesis by simp
qed

lemma CSG_GetStats_spec:
  assumes inv: "csg_inv s"
  shows "\<exists>st s'. CSG_GetStats ord s = Some (st, s') \<and> cache s' = cache s
           \<and> same_partition (uf s) {} (uf s') \<and> TotalIdentifiers st = card (keys (uf s))
           \<and> CacheSize st = lru_Len (cache s)"
proof -
  from inv have i: "uf_inv (uf s)" by (simp add: csg_inv_def)
  from GetAllComponents_spec[OF i] obtain cs u1 where
    u1: "GetAllComponents ord (uf s) = Some (cs, u1)" "same_partition (uf s) {} u1" by blast
  let ?st = "\<lparr>TotalIdentifiers = Size u1, TotalSessions = length cs,
               CacheSize = lru_Len (cache s)\<rparr>"
  from u1(1) have "CSG_GetStats ord s = Some (?st, s\<lparr>uf := u1\<rparr>)"
    by (simp add: CSG_GetStats_def)
  moreover have "Size u1 = card (keys (uf s))"
  proof -
    from u1(2) have "distinct (map fst (parent u1))" "keys u1 = keys (uf s)"
      by (simp_all add: same_partition_def uf_inv_def)
    then show ?thesis
      using distinct_card[of "map fst (parent u1)"] by (simp add: Size_def keys_def)
  qed
  ultimately show ?thesis using u1(2) by simp
qed

lemma csg_call_spec:
  assumes inv: "csg_inv s" and c: "c \<noteq> ClearCache"
  shows "\<exists>r s'. csg_call ord s c = Some (r, s') \<and> csg_inv s'
           \<and> keys (uf s') \<subseteq> keys (uf s) \<union> atoms_of c"
proof (cases c)
  case (GetSessionKey ids)
  show ?thesis
  proof (cases "normalizeIdentifiers ids")
    case Nil
    with GetSessionKey inv show ?thesis by (simp add: CSG_GetSessionKey_empty)
  next
    case (Cons first others)
    from CSG_GetSessionKey_spec[OF inv Cons] obtain k s' where
      "CSG_GetSessionKey s ids = Some (k, s')" "csg_inv s'"
      "keys (uf s') = keys (uf s) \<union> set (first # others)" by blast
    with GetSessionKey Cons show ?thesis by simp
  qed
next
  case (LinkIdentifiers a b)
  show ?thesis
  proof (cases "a = [] \<or> b = []")
    case True
    with LinkIdentifiers inv show ?thesis by (auto simp: CSG_LinkIdentifiers_def)
  next
    case False
    then have "a \<noteq> []" "b \<noteq> []" by simp_all
    from CSG_LinkIdentifiers_spec[OF inv this] obtain s' where
      "CSG_LinkIdentifiers s a b = Some s'" "csg_inv s'" "keys (uf s') = keys (uf s) \<union> {a, b}"
      by blast
    with LinkIdentifiers show ?thesis by simp
  qed
next
  case (AreLinked a b)
  show ?thesis
  proof (cases "a = [] \<or> b = []")
    case True
    with AreLinked inv show ?thesis by (auto simp: CSG_AreLinked_def)
  next
    case False
    then have "a \<noteq> []" "b \<noteq> []" by simp_all
    from CSG_AreLinked_spec[OF inv this] obtain r s' where
      "CSG_AreLinked s a b = Some (r, s')" "same_partition (uf s) {a, b} (uf s')" by blast
    with AreLinked show ?thesis by (simp add: same_partition_def csg_inv_def)
  qed
next
  case (GetSessionSize a)
  show ?thesis
  proof (cases "a = []")
    case True
    with GetSessionSize inv show ?thesis by (auto simp: CSG_GetSessionSize_def)
  next
    case False
    from CSG_GetSessionSize_spec[OF inv this] obtain n s' where
      "CSG_GetSessionSize s a = Some (n, s')" "same_partition (uf s) {a} (uf s')" by blast
    with GetSessionSize show ?thesis by (simp add: same_partition_def csg_inv_def)
  qed
next
  case GetAllSessions
  from CSG_GetAllSessions_spec[OF inv] obtain m s' where
    "CSG_GetAllSessions ord s = Some (m, s')" "same_partition (uf s) {} (uf s')" by blast
  with GetAllSessions show ?thesis by (simp add: same_partition_def csg_inv_def)
next
  case ClearCache
  with c show ?thesis by simp
next
  case Clear
  then show ?thesis by (simp add: CSG_Clear_def Clear_uf_def csg_inv_def uf_inv_def keys_def)
next
  case GetStats
  from CSG_GetStats_spec[OF inv] obtain st s' where
    "CSG_GetStats ord s = Some (st, s')" "same_partition (uf s) {} (uf s')" by blast
  with GetStats show ?thesis by (simp add: same_partition_def csg_inv_def)
qed

lemma csg_run_spec:
  assumes "csg_inv s" and "ClearCache \<notin> snd ` set cs"
  shows "\<exists>rs s'. csg_run s cs = Some (rs, s') \<and> csg_inv s'
           \<and> keys (uf s') \<subseteq> keys (uf s) \<union> \<Union>(atoms_of ` snd ` set cs)"
  using assms
proof (induction cs arbitrary: s)
  case Nil
  then show ?case by simp
next
  case (Cons oc cs)
  obtain ord c where oc: "oc = (ord, c)" by (cases oc)
  from Cons.prems(2) oc have "c \<noteq> ClearCache" by auto
  from csg_call_spec[OF Cons.prems(1) this, of ord] obtain r s1 where
    s1: "csg_call ord s c = Some (r, s1)" "csg_inv s1"
      "keys (uf s1) \<subseteq> keys (uf s) \<union> atoms_of c"
    by blast
  from Cons.prems(2) have "ClearCache \<notin> snd ` set cs" by simp
  from Cons.IH[OF s1(2) this] obtain rs s2 where
    s2: "csg_run s1 cs = Some (rs, s2)" "csg_inv s2"
      "keys (uf s2) \<subseteq> keys (uf s1) \<union> \<Union>(atoms_of ` snd ` set cs)" by blast
  from s1(1) s2(1) oc have "csg_run s (oc # cs) = Some (r # rs, s2)" by simp
  moreover from s1(3) s2(3) oc
  have "keys (uf s2) \<subseteq> keys (uf s) \<union> \<Union>(atoms_of ` snd ` set (oc # cs))"
    by auto
  ultimately show ?case using s2(2) by blast
qed

lemma csg_run_no_ClearCache: "csg_run s cs = Some (rs, s') \<Longrightarrow> ClearCache \<notin> snd ` set cs"
proof (induction cs arbitrary: s rs)
  case Nil
  then show ?case by simp
next
  case (Cons oc cs)
  obtain ord c where oc: "oc = (ord, c)" by (cases oc)
  from Cons.prems oc obtain r s1 rs1 where
    "csg_call ord s c = Some (r, s1)" "csg_run s1 cs = Some (rs1, s')"
    by (auto split: bind_splits)
  with Cons.IH[of s1 rs1] oc show ?case by (cases c) auto
qed

lemma csg_new_inv: "NewCanonicalSessionGenerator n = Inr s \<Longrightarrow> csg_inv s \<and> keys (uf s) = {}"
  by (auto simp: NewCanonicalSessionGenerator_Inr csg_inv_def uf_inv_def NewUnionFind_def keys_def)

lemma csg_reachable:
  assumes "NewCanonicalSessionGenerator n = Inr s0" and "csg_run s0 cs = Some (rs, s)"
  shows "csg_inv s" and "keys (uf s) \<subseteq> \<Union>(atoms_of ` snd ` set cs)"
proof -
  from csg_new_inv[OF assms(1)] have i: "csg_inv s0" and k: "keys (uf s0) = {}" by simp_all
  from csg_run_spec[OF i csg_run_no_ClearCache[OF assms(2)]] assms(2) k
  show "csg_inv s" and "keys (uf s) \<subseteq> \<Union>(atoms_of ` snd ` set cs)" by auto
qed

section \<open>The claims\<close>



text \<open>
  Claim C2, at the input where the structural-hash engine departs from it. The first lookup
  caches the key of \<open>cookie:a\<close>; the second lookup, of \<open>cookie:a\<close> and \<open>uid:u\<close> together, finds
  that key in the cache and returns it before any edge is added, so the two atoms of the
  lookup are not linked afterwards. This is so in whatever order the loops of the three
  calls range over their maps.
\<close>

theorem sg_lookup_cache_hit_skips_linking:
  "fst (sg_run \<lparr>edges = [], cache_sg = \<lparr>cap = 100, entries = []\<rparr>, hashCache = []\<rparr>
     [(o1, GetSessionKey [(''cookie'', ''a'')]),
      (o2, GetSessionKey [(''cookie'', ''a''), (''uid'', ''u'')]),
      (o3, AreLinked ''cookie:a'' ''uid:u'')]) =
   [Key (''sess_'' @ hex (take 8 (sha256 (hex (take 8 (sha256 ''cookie:a:'')))))),
    Key (''sess_'' @ hex (take 8 (sha256 (hex (take 8 (sha256 ''cookie:a:'')))))),
    Flag False]"
  by (simp add: lib_eval sg_eval)

text \<open>
  Claim C10. In the canonical-root engine \<^theory_text>\<open>AreLinked\<close> is not a read-only query. In every
  state that a run of calls reaches from a new engine, a call of \<^theory_text>\<open>AreLinked(a, b)\<close> with two
  atoms that are not empty returns, and afterwards the structure knows the atoms it knew
  and \<open>a\<close> and \<open>b\<close>; each of the two that it did not know is a root with itself as the only
  member of its component; every atom has the representative it had, so the components
  are the ones that were there; the cache is the same; and the statistics count as many
  identifiers more as there were unknown atoms among \<open>a\<close> and \<open>b\<close>, with the same size of
  the cache.
\<close>

theorem are_linked_inserts_unknown_atoms:
  assumes "NewCanonicalSessionGenerator n = Inr s0"
    and "csg_run s0 cs = Some (rs, s)"
    and "a \<noteq> []" and "b \<noteq> []"
  shows "\<exists>r s' st t st' t'.
           CSG_AreLinked s a b = Some (r, s')
         \<and> keys (uf s') = keys (uf s) \<union> {a, b}
         \<and> (\<forall>x \<in> {a, b} - keys (uf s).
               map_of (parent (uf s')) x = Some x \<and> (\<forall>y. rep (uf s') y = x \<longrightarrow> y = x))
         \<and> (\<forall>y. rep (uf s') y = rep (uf s) y)
         \<and> cache s' = cache s
         \<and> CSG_GetStats o1 s = Some (st, t) \<and> CSG_GetStats o2 s' = Some (st', t')
         \<and> TotalIdentifiers st' = TotalIdentifiers st + card ({a, b} - keys (uf s))
         \<and> CacheSize st' = CacheSize st"
proof -
  let ?u = "uf s"
  from csg_reachable(1)[OF assms(1,2)] have inv: "csg_inv s" .
  then have i: "uf_inv ?u" by (simp add: csg_inv_def)
  from CSG_AreLinked_spec[OF inv assms(3,4)] obtain s' where
    s': "CSG_AreLinked s a b = Some (rep ?u a = rep ?u b, s')" "cache s' = cache s"
      "same_partition ?u {a, b} (uf s')" by blast
  from s'(3) have i': "uf_inv (uf s')" and k': "keys (uf s') = keys ?u \<union> {a, b}"
    and r': "rep (uf s') = rep ?u" by (simp_all add: same_partition_def)
  from i' have inv': "csg_inv s'" by (simp add: csg_inv_def)
  have new: "map_of (parent (uf s')) x = Some x \<and> (\<forall>y. rep (uf s') y = x \<longrightarrow> y = x)"
    if x: "x \<in> {a, b} - keys ?u" for x
  proof
    from x have xk: "x \<in> keys (uf s')" and xn: "x \<notin> keys ?u" using k' by auto
    from xn have rx: "rep (uf s') x = x" unfolding r' by simp
    from rep_root[OF i' xk] rx show "map_of (parent (uf s')) x = Some x" by simp
    show "\<forall>y. rep (uf s') y = x \<longrightarrow> y = x"
    proof (intro allI impI)
      fix y assume y: "rep (uf s') y = x"
      show "y = x"
      proof (cases "y \<in> keys ?u")
        case True
        from rep_in_keys[OF i True] y xn show ?thesis unfolding r' by simp
      next
        case False
        with y show ?thesis unfolding r' by simp
      qed
    qed
  qed
  from CSG_GetStats_spec[OF inv, of o1] obtain st t where
    st: "CSG_GetStats o1 s = Some (st, t)" "TotalIdentifiers st = card (keys ?u)"
      "CacheSize st = lru_Len (cache s)" by blast
  from CSG_GetStats_spec[OF inv', of o2] obtain st' t' where
    st': "CSG_GetStats o2 s' = Some (st', t')" "TotalIdentifiers st' = card (keys (uf s'))"
      "CacheSize st' = lru_Len (cache s')" by blast
  have fin: "finite (keys ?u)" by (simp add: keys_def)
  have "keys ?u \<union> {a, b} = keys ?u \<union> ({a, b} - keys ?u)" by auto
  then have "card (keys ?u \<union> {a, b}) = card (keys ?u) + card ({a, b} - keys ?u)"
    using card_Un_disjoint[of "keys ?u" "{a, b} - keys ?u"] fin by auto
  with st(2) st'(2) k' have tot: "TotalIdentifiers st' = TotalIdentifiers st + card ({a, b} - keys ?u)"
    by simp
  from st(3) st'(3) s'(2) have cs: "CacheSize st' = CacheSize st" by simp
  from r' have r'': "\<forall>y. rep (uf s') y = rep ?u y" by simp
  from new have new': "\<forall>x \<in> {a, b} - keys ?u.
      map_of (parent (uf s')) x = Some x \<and> (\<forall>y. rep (uf s') y = x \<longrightarrow> y = x)" by blast
  show ?thesis
    apply (rule exI[of _ "rep ?u a = rep ?u b"])
    apply (rule exI[of _ s'])
    apply (rule exI[of _ st])
    apply (rule exI[of _ t])
    apply (rule exI[of _ st'])
    apply (rule exI[of _ t'])
    apply (intro conjI)
            apply (rule s'(1))
           apply (rule k')
          apply (rule new')
         apply (rule r'')
        apply (rule s'(2))
       apply (rule st(1))
      apply (rule st'(1))
     apply (rule tot)
    apply (rule cs)
    done
qed

theorem are_linked_inserts_unknown_atoms_witness:
  "NewCanonicalSessionGenerator 10 = Inr \<lparr>uf = NewUnionFind, cache = \<lparr>cap = 10, entries = []\<rparr>\<rparr>
   \<and> csg_run \<lparr>uf = NewUnionFind, cache = \<lparr>cap = 10, entries = []\<rparr>\<rparr>
         [(list_order, LinkIdentifiers ''uid:a'' ''cookie:c'')]
       = Some ([Done],
           \<lparr>uf = \<lparr>parent = [(''uid:a'', ''uid:a''), (''cookie:c'', ''uid:a'')],
                   rank = [(''uid:a'', 1), (''cookie:c'', 0)]\<rparr>,
             cache = \<lparr>cap = 10, entries = []\<rparr>\<rparr>)
   \<and> ''uid:a'' \<noteq> [] \<and> ''uid:b'' \<noteq> []
   \<and> (\<exists>r s' st t st' t'.
           CSG_AreLinked
             \<lparr>uf = \<lparr>parent = [(''uid:a'', ''uid:a''), (''cookie:c'', ''uid:a'')],
                     rank = [(''uid:a'', 1), (''cookie:c'', 0)]\<rparr>,
               cache = \<lparr>cap = 10, entries = []\<rparr>\<rparr> ''uid:a'' ''uid:b'' = Some (r, s')
         \<and> cache s' = \<lparr>cap = 10, entries = []\<rparr>
         \<and> CSG_GetStats list_order
               \<lparr>uf = \<lparr>parent = [(''uid:a'', ''uid:a''), (''cookie:c'', ''uid:a'')],
                       rank = [(''uid:a'', 1), (''cookie:c'', 0)]\<rparr>,
                 cache = \<lparr>cap = 10, entries = []\<rparr>\<rparr> = Some (st, t)
         \<and> CSG_GetStats list_order s' = Some (st', t')
         \<and> TotalIdentifiers st = 2 \<and> TotalIdentifiers st' = 3)"
proof -
  let ?init = "\<lparr>uf = NewUnionFind, cache = \<lparr>cap = 10, entries = []\<rparr>\<rparr>"
  let ?s = "\<lparr>uf = \<lparr>parent = [(''uid:a'', ''uid:a''), (''cookie:c'', ''uid:a'')],
                   rank = [(''uid:a'', 1), (''cookie:c'', 0)]\<rparr>,
             cache = \<lparr>cap = 10, entries = []\<rparr>\<rparr>"
  have h1: "NewCanonicalSessionGenerator 10 = Inr ?init"
    by (simp add: NewCanonicalSessionGenerator_Inr)
  have h2: "csg_run ?init [(list_order, LinkIdentifiers ''uid:a'' ''cookie:c'')] = Some ([Done], ?s)"
    by (simp add: lib_eval csg_eval)
  have k: "keys (uf ?s) = {''uid:a'', ''cookie:c''}" by (auto simp add: keys_def)
  have c: "card ({''uid:a'', ''uid:b''} - keys (uf ?s)) = 1" unfolding k by simp
  from are_linked_inserts_unknown_atoms[OF h1 h2, of "''uid:a''" "''uid:b''" list_order list_order]
  obtain r s' st t st' t' where
    "CSG_AreLinked ?s ''uid:a'' ''uid:b'' = Some (r, s')" "cache s' = cache ?s"
    "CSG_GetStats list_order ?s = Some (st, t)" "CSG_GetStats list_order s' = Some (st', t')"
    "TotalIdentifiers st' = TotalIdentifiers st + card ({''uid:a'', ''uid:b''} - keys (uf ?s))"
    by auto
  moreover from this(3) have "TotalIdentifiers st = 2"
    by (auto simp add: CSG_GetStats_def GetAllComponents_def lib_eval csg_eval Size_def
        split: bind_splits)
  ultimately have "\<exists>r s' st t st' t'.
           CSG_AreLinked ?s ''uid:a'' ''uid:b'' = Some (r, s')
         \<and> cache s' = \<lparr>cap = 10, entries = []\<rparr>
         \<and> CSG_GetStats list_order ?s = Some (st, t)
         \<and> CSG_GetStats list_order s' = Some (st', t')
         \<and> TotalIdentifiers st = 2 \<and> TotalIdentifiers st' = 3"
    using c by auto
  then show ?thesis
    apply (intro conjI)
        apply (rule h1)
       apply (rule h2)
      apply simp
     apply simp
    apply assumption
    done
qed

end
